theory Spec2Isabelle
  imports Main "HOL-Library.Word"
begin

unbundle bit_operations_syntax

section \<open>The external scanner of tree-sitter-codon (src/scanner.c)\<close>

subsection \<open>Data model\<close>

text \<open>
  The token kinds of \<^verbatim>\<open>enum TokenType\<close>, in the order of the source.
\<close>

datatype TokenType =
    NEWLINE
  | INDENT
  | DEDENT
  | STRING_START
  | STRING_CONTENT
  | ESCAPE_INTERPOLATION
  | STRING_END
  | EXTERN_CONTENT
  | PREC

text \<open>
  \<^verbatim>\<open>struct Scanner\<close>: \<^verbatim>\<open>Array(uint16_t) indents\<close>, \<^verbatim>\<open>Array(int32_t) delimiters\<close>,
  \<^verbatim>\<open>bool inside_f_string\<close>. The arrays are used as stacks whose top is the last
  element: \<^verbatim>\<open>array_push\<close> appends, \<^verbatim>\<open>array_pop\<close> removes the last element and
  \<^verbatim>\<open>array_back\<close> reads it.
\<close>

record Scanner =
  indents :: "16 word list"
  delimiters :: "32 word list"
  inside_f_string :: bool

text \<open>\<^verbatim>\<open>tree_sitter_codon_external_scanner_create\<close>.\<close>

definition create :: Scanner where
  "create = \<lparr>indents = [], delimiters = [], inside_f_string = False\<rparr>"

text \<open>
  Modelled from the spec: the cursor \<^verbatim>\<open>TSLexer\<close> is declared in
  \<^verbatim>\<open>tree_sitter/parser.h\<close> and implemented by the host runtime, neither of which is
  part of the scanner. Section 6 of the specification lists what the scanner needs of it:
  peek the current code point, advance one code point (either as part of the token or as
  skipped text), mark the current position as the end of the token, and an end-of-input
  predicate. The cursor is the list of code points not yet consumed together with the
  number of code points consumed so far; \<open>token_start\<close> is the position after the last
  skipped code point, \<open>token_end\<close> the position last marked. At the end of the input the
  lookahead is 0 and advancing does nothing. A code point 0 inside the input is not
  excluded.
\<close>

record TSLexer =
  input :: "32 word list"
  position :: nat
  token_start :: nat
  token_end :: "nat option"
  result_symbol :: TokenType

definition lookahead :: "TSLexer \<Rightarrow> 32 word" where
  "lookahead lx = (case input lx of [] \<Rightarrow> 0 | c # _ \<Rightarrow> c)"

definition eof :: "TSLexer \<Rightarrow> bool" where
  "eof lx = (input lx = [])"

definition advance :: "TSLexer \<Rightarrow> TSLexer" where
  "advance lx =
     (case input lx of
        [] \<Rightarrow> lx
      | _ # cs \<Rightarrow> lx\<lparr>input := cs, position := Suc (position lx)\<rparr>)"

definition skip :: "TSLexer \<Rightarrow> TSLexer" where
  "skip lx =
     (case input lx of
        [] \<Rightarrow> lx
      | _ # cs \<Rightarrow> lx\<lparr>input := cs, position := Suc (position lx),
                       token_start := Suc (position lx)\<rparr>)"

definition mark_end :: "TSLexer \<Rightarrow> TSLexer" where
  "mark_end lx = lx\<lparr>token_end := Some (position lx)\<rparr>"

text \<open>A cursor standing at position \<open>p\<close> of a text, before any call of the scanner.\<close>

definition lexer_at :: "32 word list \<Rightarrow> nat \<Rightarrow> TSLexer" where
  "lexer_at text p =
     \<lparr>input = drop p text, position = p, token_start = p, token_end = None,
      result_symbol = NEWLINE\<rparr>"

text \<open>
  \<^verbatim>\<open>const bool *valid_symbols\<close> is a table indexed by token kind; \<open>accepting ks\<close> is
  the table that holds exactly at the kinds of the list \<open>ks\<close>.
\<close>

type_synonym valid_symbols = "TokenType \<Rightarrow> bool"

definition accepting :: "TokenType list \<Rightarrow> valid_symbols" where
  "accepting ks k = (k \<in> set ks)"

text \<open>The character constants the source compares the lookahead with.\<close>

abbreviation CH_TAB :: "32 word" where "CH_TAB \<equiv> 0x09"
abbreviation CH_LF :: "32 word" where "CH_LF \<equiv> 0x0A"
abbreviation CH_CR :: "32 word" where "CH_CR \<equiv> 0x0D"
abbreviation CH_SPACE :: "32 word" where "CH_SPACE \<equiv> 0x20"
abbreviation CH_DQUOTE :: "32 word" where "CH_DQUOTE \<equiv> 0x22"
abbreviation CH_HASH :: "32 word" where "CH_HASH \<equiv> 0x23"
abbreviation CH_SQUOTE :: "32 word" where "CH_SQUOTE \<equiv> 0x27"
abbreviation CH_BACKSLASH :: "32 word" where "CH_BACKSLASH \<equiv> 0x5C"
abbreviation CH_LBRACE :: "32 word" where "CH_LBRACE \<equiv> 0x7B"

definition is_space :: "32 word \<Rightarrow> bool" where
  "is_space c = (c = CH_SPACE \<or> c = CH_TAB)"

definition is_newline :: "32 word \<Rightarrow> bool" where
  "is_newline c = (c = CH_LF \<or> c = CH_CR)"

subsection \<open>The indentation tracker: \<^verbatim>\<open>scan_newline\<close>\<close>

lemma advance_shorter:
  "input lx \<noteq> [] \<Longrightarrow> length (input (advance lx)) < length (input lx)"
  by (cases "input lx") (simp_all add: advance_def)

lemma skip_shorter:
  "input lx \<noteq> [] \<Longrightarrow> length (input (skip lx)) < length (input lx)"
  by (cases "input lx") (simp_all add: skip_def)

lemma lookahead_nonzero: "lookahead lx \<noteq> 0 \<Longrightarrow> input lx \<noteq> []"
  by (auto simp: lookahead_def)

lemma is_space_nonzero: "is_space c \<Longrightarrow> c \<noteq> 0"
  by (auto simp: is_space_def)

lemma is_newline_nonzero: "is_newline c \<Longrightarrow> c \<noteq> 0"
  by (auto simp: is_newline_def)

text \<open>\<^verbatim>\<open>while (is_space(lexer->lookahead)) skip(lexer);\<close>\<close>

function skip_spaces :: "TSLexer \<Rightarrow> TSLexer" where
  "skip_spaces lx = (if is_space (lookahead lx) then skip_spaces (skip lx) else lx)"
  by pat_completeness auto
termination
  by (relation "measure (\<lambda>lx. length (input lx))")
     (auto intro!: skip_shorter lookahead_nonzero is_space_nonzero)

declare skip_spaces.simps [simp del]

text \<open>
  The comment loop, written twice in the source (lines 156 and 184) with the same
  condition: skip while the lookahead is neither a line terminator nor 0.
\<close>

function skip_comment :: "TSLexer \<Rightarrow> TSLexer" where
  "skip_comment lx =
     (if \<not> is_newline (lookahead lx) \<and> lookahead lx \<noteq> 0 then skip_comment (skip lx)
      else lx)"
  by pat_completeness auto
termination
  by (relation "measure (\<lambda>lx. length (input lx))")
     (auto intro!: skip_shorter lookahead_nonzero)

declare skip_comment.simps [simp del]

text \<open>
  \<^verbatim>\<open>while (is_space(lexer->lookahead)) { indent++; skip(lexer); }\<close> with the counter
  \<^verbatim>\<open>uint32_t indent\<close>.
\<close>

function count_indent :: "32 word \<Rightarrow> TSLexer \<Rightarrow> 32 word \<times> TSLexer" where
  "count_indent indent lx =
     (if is_space (lookahead lx) then count_indent (indent + 1) (skip lx)
      else (indent, lx))"
  by pat_completeness auto
termination
  by (relation "measure (\<lambda>(indent, lx). length (input lx))")
     (auto intro!: skip_shorter lookahead_nonzero is_space_nonzero)

declare count_indent.simps [simp del]

lemma skip_comment_length: "length (input (skip_comment lx)) \<le> length (input lx)"
proof (induction lx rule: skip_comment.induct)
  case (1 lx)
  show ?case
  proof (cases "\<not> is_newline (lookahead lx) \<and> lookahead lx \<noteq> 0")
    case True
    then have "length (input (skip lx)) < length (input lx)"
      by (intro skip_shorter lookahead_nonzero) simp
    with 1 True show ?thesis
      by (subst skip_comment.simps) simp
  next
    case False
    then show ?thesis
      by (subst skip_comment.simps) auto
  qed
qed

lemma skip_comment_hash:
  "lookahead lx = CH_HASH \<Longrightarrow> length (input (skip_comment lx)) < length (input lx)"
proof -
  assume h: "lookahead lx = CH_HASH"
  then have ne: "input lx \<noteq> []"
    by (intro lookahead_nonzero) simp
  from h have "skip_comment lx = skip_comment (skip lx)"
    by (subst skip_comment.simps) (simp add: is_newline_def)
  then have "length (input (skip_comment lx)) \<le> length (input (skip lx))"
    by (simp add: skip_comment_length)
  with skip_shorter [OF ne] show ?thesis by simp
qed

lemma count_indent_length:
  "length (input (snd (count_indent n lx))) \<le> length (input lx)"
proof (induction n lx rule: count_indent.induct)
  case (1 indent lx)
  show ?case
  proof (cases "is_space (lookahead lx)")
    case True
    then have "length (input (skip lx)) < length (input lx)"
      by (intro skip_shorter lookahead_nonzero is_space_nonzero)
    with 1 True show ?thesis
      by (subst count_indent.simps) simp
  next
    case False
    then show ?thesis
      by (subst count_indent.simps) simp
  qed
qed

text \<open>
  One round of the loop at lines 182 to 199: skip a comment, skip the line terminator
  (one or two code points), and measure the next line from 0.
\<close>

definition skip_blank_line :: "TSLexer \<Rightarrow> 32 word \<times> TSLexer" where
  "skip_blank_line lx =
     (let lx1 = (if lookahead lx = CH_HASH then skip_comment lx else lx);
          lx2 = (if is_newline (lookahead lx1)
                 then (let l = skip lx1 in if lookahead l = CH_LF then skip l else l)
                 else lx1)
      in count_indent 0 lx2)"

lemma skip_blank_line_shorter:
  assumes "is_newline (lookahead lx) \<or> lookahead lx = CH_HASH"
  shows "length (input (snd (skip_blank_line lx))) < length (input lx)"
proof -
  define lx1 where "lx1 = (if lookahead lx = CH_HASH then skip_comment lx else lx)"
  define lx2 where "lx2 = (if is_newline (lookahead lx1)
                 then (let l = skip lx1 in if lookahead l = CH_LF then skip l else l)
                 else lx1)"
  have r: "skip_blank_line lx = count_indent 0 lx2"
    by (simp add: skip_blank_line_def lx1_def lx2_def Let_def)
  have skip_le: "length (input (skip l)) \<le> length (input l)" for l
    by (cases "input l") (simp_all add: skip_def)
  have l1: "length (input lx1) \<le> length (input lx)"
    by (simp add: lx1_def skip_comment_length)
  have l2: "length (input lx2) \<le> length (input lx1)"
    using skip_le [of lx1] skip_le [of "skip lx1"]
    by (auto simp: lx2_def Let_def)
  have "length (input lx2) < length (input lx)"
  proof (cases "lookahead lx = CH_HASH")
    case True
    then have "length (input lx1) < length (input lx)"
      by (simp add: lx1_def skip_comment_hash)
    with l2 show ?thesis by simp
  next
    case False
    with assms have nl: "is_newline (lookahead lx1)" and eq: "lx1 = lx"
      by (simp_all add: lx1_def)
    then have lt: "length (input (skip lx1)) < length (input lx1)"
      by (intro skip_shorter lookahead_nonzero is_newline_nonzero)
    with nl skip_le [of "skip lx1"] have "length (input lx2) < length (input lx1)"
      by (auto simp: lx2_def Let_def)
    with eq show ?thesis by simp
  qed
  with count_indent_length [of 0 lx2] r show ?thesis by simp
qed

text \<open>
  \<^verbatim>\<open>while (is_newline(lexer->lookahead) || lexer->lookahead == '#') { ... }\<close>: blank and
  comment-only lines are skipped and the width is measured again after each.
\<close>

function skip_blank_lines :: "32 word \<Rightarrow> TSLexer \<Rightarrow> 32 word \<times> TSLexer" where
  "skip_blank_lines indent lx =
     (if is_newline (lookahead lx) \<or> lookahead lx = CH_HASH
      then (case skip_blank_line lx of (indent', lx') \<Rightarrow> skip_blank_lines indent' lx')
      else (indent, lx))"
  by pat_completeness auto
termination
proof (relation "measure (\<lambda>(indent, lx). length (input lx))", goal_cases)
  case 1
  show ?case by simp
next
  case prems: (2 indent lx)
  from prems(1) have "length (input (snd (skip_blank_line lx))) < length (input lx)"
    by (rule skip_blank_line_shorter)
  with prems show ?case by (metis case_prod_conv in_measure snd_conv)
qed

declare skip_blank_lines.simps [simp del]

text \<open>
  \<^verbatim>\<open>scan_newline\<close>, in the four parts the source has. Lines 150 to 159: skip
  horizontal whitespace and then a comment.
\<close>

definition skip_to_newline :: "TSLexer \<Rightarrow> TSLexer" where
  "skip_to_newline lexer =
     (let lx1 = skip_spaces lexer
      in if lookahead lx1 = CH_HASH then skip_comment lx1 else lx1)"

text \<open>
  Lines 166 to 172: consume the line terminator, of one or two code points, set the
  result to NEWLINE and mark the end of the token.
\<close>

definition consume_newline :: "TSLexer \<Rightarrow> TSLexer" where
  "consume_newline lx =
     (let lx1 = advance lx;
          lx2 = (if lookahead lx1 = CH_LF then advance lx1 else lx1)
      in mark_end (lx2\<lparr>result_symbol := NEWLINE\<rparr>))"

text \<open>Lines 175 to 199: the width of the next line that is neither blank nor a comment.\<close>

definition measure_indent :: "TSLexer \<Rightarrow> 32 word \<times> TSLexer" where
  "measure_indent lx =
     (case count_indent 0 lx of (indent, lx1) \<Rightarrow> skip_blank_lines indent lx1)"

text \<open>
  Lines 202 to 218: INDENT, DEDENT or NEWLINE. The comparison of the \<^verbatim>\<open>uint32_t\<close>
  width with the \<^verbatim>\<open>uint16_t\<close> top of the stack is unsigned, at 32 bits;
  \<^verbatim>\<open>array_push(&scanner->indents, indent)\<close> stores the width in a \<^verbatim>\<open>uint16_t\<close>
  slot, which keeps its low 16 bits.
\<close>

definition indent_decision ::
  "Scanner \<Rightarrow> valid_symbols \<Rightarrow> 32 word \<Rightarrow> TSLexer \<Rightarrow> bool \<times> Scanner \<times> TSLexer" where
  "indent_decision scanner valid indent lx =
     (let current_indent = (if indents scanner \<noteq> [] then last (indents scanner) else 0)
      in if ucast current_indent < indent \<and> valid INDENT
         then (True, scanner\<lparr>indents := indents scanner @ [ucast indent]\<rparr>,
               lx\<lparr>result_symbol := INDENT\<rparr>)
         else if indent < ucast current_indent \<and> valid DEDENT
         then (True, scanner\<lparr>indents := butlast (indents scanner)\<rparr>,
               lx\<lparr>result_symbol := DEDENT\<rparr>)
         else (valid NEWLINE, scanner, lx))"

text \<open>The result is the returned flag, the scanner and the cursor.\<close>

definition scan_newline :: "Scanner \<Rightarrow> TSLexer \<Rightarrow> valid_symbols \<Rightarrow> bool \<times> Scanner \<times> TSLexer" where
  "scan_newline scanner lexer valid =
     (let lx = skip_to_newline lexer
      in if \<not> is_newline (lookahead lx) then (False, scanner, lx)
         else
           case measure_indent (consume_newline lx) of
             (indent, lx') \<Rightarrow> indent_decision scanner valid indent lx')"

subsection \<open>The string tokenizer: \<^verbatim>\<open>scan_string\<close>\<close>

text \<open>
  The prefix loop of lines 231 to 247: any run of the letters r, f, b, u in either case;
  the flags accumulate.
\<close>

function scan_prefix :: "bool \<Rightarrow> bool \<Rightarrow> bool \<Rightarrow> TSLexer \<Rightarrow> bool \<times> bool \<times> bool \<times> TSLexer" where
  "scan_prefix is_raw is_format is_bytes lx =
     (let c = lookahead lx
      in if c = 0x72 \<or> c = 0x52 then scan_prefix True is_format is_bytes (advance lx)
         else if c = 0x66 \<or> c = 0x46 then scan_prefix is_raw True is_bytes (advance lx)
         else if c = 0x62 \<or> c = 0x42 then scan_prefix is_raw is_format True (advance lx)
         else if c = 0x75 \<or> c = 0x55 then scan_prefix is_raw is_format is_bytes (advance lx)
         else (is_raw, is_format, is_bytes, lx))"
  by pat_completeness auto
termination
  by (relation "measure (\<lambda>(r, f, b, lx). length (input lx))")
     (auto intro!: advance_shorter lookahead_nonzero)

declare scan_prefix.simps [simp del]

text \<open>
  How the \<^verbatim>\<open>while (true)\<close> loop of lines 290 to 356 is left: by a \<^verbatim>\<open>return\<close> of
  \<^verbatim>\<open>scan_string\<close> with the given flag, or by \<^verbatim>\<open>break\<close> with the value of
  \<^verbatim>\<open>has_content\<close>. One round of the loop either leaves it or goes on to the next
  round, by \<^verbatim>\<open>continue\<close> or by reaching the end of the body; wherever it goes on,
  \<^verbatim>\<open>has_content\<close> has been set.
\<close>

datatype loop_exit = Return bool TSLexer | Break bool TSLexer

datatype loop_round = Exit loop_exit | Continue TSLexer

definition string_content_round ::
  "32 word \<Rightarrow> bool \<Rightarrow> bool \<Rightarrow> bool \<Rightarrow> bool \<Rightarrow> TSLexer \<Rightarrow> loop_round" where
  "string_content_round quote_char is_triple is_raw is_format has_content lx =
     (if lookahead lx = 0 then Exit (Break has_content lx)
      else if lookahead lx = quote_char then
        (if is_triple then
           (let lx1 = advance (mark_end lx)
            in if lookahead lx1 = quote_char then
                 (let lx2 = advance lx1
                  in if lookahead lx2 = quote_char then
                       (if has_content
                        then Exit (Return True (lx2\<lparr>result_symbol := STRING_CONTENT\<rparr>))
                        else Exit (Break has_content lx2))
                     else Continue lx2)
               else Continue lx1)
         else Exit (Break has_content lx))
      else if \<not> is_triple \<and> is_newline (lookahead lx) then Exit (Break has_content lx)
      else if is_format \<and> lookahead lx = CH_LBRACE then
        (if has_content
         then Exit (Return True ((mark_end lx)\<lparr>result_symbol := STRING_CONTENT\<rparr>))
         else
           (let lx1 = advance lx
            in if lookahead lx1 = CH_LBRACE
               then Exit (Return True
                            ((mark_end (advance lx1))\<lparr>result_symbol := ESCAPE_INTERPOLATION\<rparr>))
               else Exit (Return False lx1)))
      else if \<not> is_raw \<and> lookahead lx = CH_BACKSLASH then
        (let lx1 = advance lx;
             lx2 = (if lookahead lx1 \<noteq> 0 then advance lx1 else lx1)
         in Continue lx2)
      else Continue (advance lx))"

lemma string_content_round_shorter:
  assumes "string_content_round q t r f h lx = Continue lx'"
  shows "length (input lx') < length (input lx)"
proof (cases "input lx")
  case Nil
  with assms show ?thesis
    by (simp add: string_content_round_def lookahead_def)
next
  case (Cons c cs)
  with assms show ?thesis
    by (auto simp: string_content_round_def Let_def lookahead_def advance_def mark_end_def
             split: if_splits list.splits)
qed

function string_content_loop ::
  "32 word \<Rightarrow> bool \<Rightarrow> bool \<Rightarrow> bool \<Rightarrow> bool \<Rightarrow> TSLexer \<Rightarrow> loop_exit" where
  "string_content_loop quote_char is_triple is_raw is_format has_content lx =
     (case string_content_round quote_char is_triple is_raw is_format has_content lx of
        Exit e \<Rightarrow> e
      | Continue lx' \<Rightarrow> string_content_loop quote_char is_triple is_raw is_format True lx')"
  by pat_completeness auto
termination
  by (relation "measure (\<lambda>(q, t, r, f, h, lx). length (input lx))")
     (auto dest: string_content_round_shorter)

declare string_content_loop.simps [simp del]

text \<open>
  The three stages of \<^verbatim>\<open>scan_string\<close>, last first. Lines 366 to 393: the closing
  sequence. The delimiter is popped and \<^verbatim>\<open>inside_f_string\<close> recomputed from the new
  top.
\<close>

definition string_end_found :: "Scanner \<Rightarrow> TSLexer \<Rightarrow> bool \<times> Scanner \<times> TSLexer" where
  "string_end_found scanner lx =
     (let ds = butlast (delimiters scanner)
      in (True,
          scanner\<lparr>delimiters := ds,
                  inside_f_string := (ds \<noteq> [] \<and> last ds AND 0x400 \<noteq> 0)\<rparr>,
          (mark_end lx)\<lparr>result_symbol := STRING_END\<rparr>))"

definition scan_string_end :: "Scanner \<Rightarrow> TSLexer \<Rightarrow> valid_symbols \<Rightarrow> bool \<times> Scanner \<times> TSLexer" where
  "scan_string_end scanner lx valid =
     (if valid STRING_END \<and> delimiters scanner \<noteq> [] then
        (let delim = last (delimiters scanner);
             quote_char = delim AND 0xFF;
             is_triple = (delim AND 0x100 \<noteq> 0)
         in if lookahead lx = quote_char then
              (let lx1 = advance lx
               in if is_triple then
                    (if lookahead lx1 = quote_char then
                       (let lx2 = advance lx1
                        in if lookahead lx2 = quote_char
                           then string_end_found scanner (advance lx2)
                           else (False, scanner, lx2))
                     else (False, scanner, lx1))
                  else string_end_found scanner lx1)
            else (False, scanner, lx))
      else (False, scanner, lx))"

text \<open>Lines 281 to 363: the content of the innermost open string.\<close>

definition scan_string_content :: "Scanner \<Rightarrow> TSLexer \<Rightarrow> valid_symbols \<Rightarrow> bool \<times> Scanner \<times> TSLexer" where
  "scan_string_content scanner lx valid =
     (if valid STRING_CONTENT \<and> delimiters scanner \<noteq> [] then
        (let delim = last (delimiters scanner);
             quote_char = delim AND 0xFF;
             is_triple = (delim AND 0x100 \<noteq> 0);
             is_raw = (delim AND 0x200 \<noteq> 0);
             is_format = (delim AND 0x400 \<noteq> 0)
         in case string_content_loop quote_char is_triple is_raw is_format False lx of
              Return ok lx' \<Rightarrow> (ok, scanner, lx')
            | Break has_content lx' \<Rightarrow>
                if has_content
                then (True, scanner, (mark_end lx')\<lparr>result_symbol := STRING_CONTENT\<rparr>)
                else scan_string_end scanner lx' valid)
      else scan_string_end scanner lx valid)"

text \<open>
  Lines 268 to 276: the opening delimiter is packed into one \<^verbatim>\<open>int32_t\<close> and pushed,
  and \<^verbatim>\<open>inside_f_string\<close> is set to the format flag.
\<close>

definition string_start_found ::
  "Scanner \<Rightarrow> 32 word \<Rightarrow> bool \<Rightarrow> bool \<Rightarrow> bool \<Rightarrow> TSLexer \<Rightarrow> bool \<times> Scanner \<times> TSLexer" where
  "string_start_found scanner quote_char is_triple is_raw is_format lx =
     (let delim = quote_char OR (if is_triple then 0x100 else 0)
                    OR (if is_raw then 0x200 else 0) OR (if is_format then 0x400 else 0)
      in (True,
          scanner\<lparr>delimiters := delimiters scanner @ [delim], inside_f_string := is_format\<rparr>,
          (mark_end lx)\<lparr>result_symbol := STRING_START\<rparr>))"

definition scan_string :: "Scanner \<Rightarrow> TSLexer \<Rightarrow> valid_symbols \<Rightarrow> bool \<times> Scanner \<times> TSLexer" where
  "scan_string scanner lexer valid =
     (if valid STRING_START then
        (case scan_prefix False False False lexer of (is_raw, is_format, is_bytes, lx) \<Rightarrow>
           if lookahead lx = CH_DQUOTE \<or> lookahead lx = CH_SQUOTE then
             (let quote_char = lookahead lx;
                  lx1 = advance lx
              in if lookahead lx1 = quote_char then
                   (let lx2 = advance lx1
                    in if lookahead lx2 = quote_char
                       then string_start_found scanner quote_char True is_raw is_format
                              (advance lx2)
                       else (True, scanner, (mark_end lx2)\<lparr>result_symbol := STRING_START\<rparr>))
                 else string_start_found scanner quote_char False is_raw is_format lx1)
           else scan_string_content scanner lx valid)
      else scan_string_content scanner lexer valid)"

subsection \<open>The dispatcher: \<^verbatim>\<open>tree_sitter_codon_external_scanner_scan\<close>\<close>

definition scan :: "Scanner \<Rightarrow> TSLexer \<Rightarrow> valid_symbols \<Rightarrow> bool \<times> Scanner \<times> TSLexer" where
  "scan scanner lexer valid =
     (if valid DEDENT \<and> indents scanner \<noteq> [] \<and> eof lexer
      then (True, scanner\<lparr>indents := butlast (indents scanner)\<rparr>,
            lexer\<lparr>result_symbol := DEDENT\<rparr>)
      else
        (case (if valid STRING_START \<or> valid STRING_CONTENT \<or> valid STRING_END
                    \<or> valid ESCAPE_INTERPOLATION
               then scan_string scanner lexer valid
               else (False, scanner, lexer)) of
           (found, scanner1, lx1) \<Rightarrow>
             if found then (True, scanner1, lx1)
             else if valid NEWLINE \<or> valid INDENT \<or> valid DEDENT
             then (case scan_newline scanner1 lx1 valid of
                     (found', scanner2, lx2) \<Rightarrow> (found', scanner2, lx2))
             else (False, scanner1, lx1)))"

subsection \<open>Serialization\<close>

text \<open>
  The serialization buffer is an array of bytes. \<^verbatim>\<open>memcpy\<close> of a \<^verbatim>\<open>uint16_t\<close>,
  \<^verbatim>\<open>uint32_t\<close> or \<^verbatim>\<open>int32_t\<close> copies its object representation; the byte order is
  that of the host, taken little-endian here (serialize and deserialize run on the same
  host, and only that the two agree matters below).
\<close>

type_synonym byte = "8 word"

definition store16 :: "16 word \<Rightarrow> byte list" where
  "store16 w = [ucast w, ucast (drop_bit 8 w)]"

definition store32 :: "32 word \<Rightarrow> byte list" where
  "store32 w = [ucast w, ucast (drop_bit 8 w), ucast (drop_bit 16 w), ucast (drop_bit 24 w)]"

definition load16 :: "byte list \<Rightarrow> 16 word" where
  "load16 bs = ucast (bs ! 0) OR push_bit 8 (ucast (bs ! 1))"

definition load32 :: "byte list \<Rightarrow> 32 word" where
  "load32 bs = ucast (bs ! 0) OR push_bit 8 (ucast (bs ! 1))
                 OR push_bit 16 (ucast (bs ! 2)) OR push_bit 24 (ucast (bs ! 3))"

text \<open>
  The capacity \<^verbatim>\<open>TREE_SITTER_SERIALIZATION_BUFFER_SIZE\<close> is a macro of
  \<^verbatim>\<open>tree_sitter/parser.h\<close>, where it is 1024.
\<close>

definition TREE_SITTER_SERIALIZATION_BUFFER_SIZE :: nat where
  "TREE_SITTER_SERIALIZATION_BUFFER_SIZE = 1024"

text \<open>
  \<^verbatim>\<open>tree_sitter_codon_external_scanner_serialize\<close>. The argument \<open>buffer\<close> of the two
  loops is the part of the buffer written so far, so that the source's \<^verbatim>\<open>size\<close> is
  its length; \<open>None\<close> is \<^verbatim>\<open>return 0\<close>. The loops run over the elements of the
  arrays, whose number is the \<^verbatim>\<open>uint32_t\<close> field \<^verbatim>\<open>size\<close> of the array. The result
  is the first \<^verbatim>\<open>size\<close> bytes of the buffer, for the returned \<^verbatim>\<open>size\<close>: the empty
  list when 0 is returned.
\<close>

fun serialize_indents :: "16 word list \<Rightarrow> byte list \<Rightarrow> byte list option" where
  "serialize_indents [] buffer = Some buffer"
| "serialize_indents (indent # rest) buffer =
     (if length buffer + 2 > TREE_SITTER_SERIALIZATION_BUFFER_SIZE then None
      else serialize_indents rest (buffer @ store16 indent))"

fun serialize_delimiters :: "32 word list \<Rightarrow> byte list \<Rightarrow> byte list option" where
  "serialize_delimiters [] buffer = Some buffer"
| "serialize_delimiters (delim # rest) buffer =
     (if length buffer + 4 > TREE_SITTER_SERIALIZATION_BUFFER_SIZE then None
      else serialize_delimiters rest (buffer @ store32 delim))"

definition serialize :: "Scanner \<Rightarrow> byte list" where
  "serialize scanner =
     (let buffer0 = [];
          indent_count = (of_nat (length (indents scanner)) :: 32 word)
      in if length buffer0 + 4 > TREE_SITTER_SERIALIZATION_BUFFER_SIZE then []
         else
           case serialize_indents (indents scanner) (buffer0 @ store32 indent_count) of
             None \<Rightarrow> []
           | Some buffer1 \<Rightarrow>
               let delim_count = (of_nat (length (delimiters scanner)) :: 32 word)
               in if length buffer1 + 4 > TREE_SITTER_SERIALIZATION_BUFFER_SIZE then []
                  else
                    case serialize_delimiters (delimiters scanner)
                           (buffer1 @ store32 delim_count) of
                      None \<Rightarrow> []
                    | Some buffer2 \<Rightarrow>
                        if length buffer2 + 1 > TREE_SITTER_SERIALIZATION_BUFFER_SIZE then []
                        else buffer2 @ [if inside_f_string scanner then 1 else 0])"

text \<open>
  \<^verbatim>\<open>tree_sitter_codon_external_scanner_deserialize\<close>. The buffer and its \<^verbatim>\<open>length\<close>
  are a list of bytes; the argument \<open>bs\<close> of the two loops is the part of the buffer not
  read yet, \<^verbatim>\<open>buffer + size\<close>, so that \<^verbatim>\<open>size + k > length\<close> is \<open>length bs < k\<close>. A
  loop returns the scanner with what it has pushed, and the rest of the buffer, or
  \<open>None\<close> where the source leaves the function by \<^verbatim>\<open>return\<close>.
\<close>

function deserialize_indents ::
  "nat \<Rightarrow> nat \<Rightarrow> byte list \<Rightarrow> Scanner \<Rightarrow> Scanner \<times> byte list option" where
  "deserialize_indents i indent_count bs scanner =
     (if i < indent_count then
        (if length bs < 2 then (scanner, None)
         else deserialize_indents (i + 1) indent_count (drop 2 bs)
                (scanner\<lparr>indents := indents scanner @ [load16 bs]\<rparr>))
      else (scanner, Some bs))"
  by pat_completeness auto
termination
  by (relation "measure (\<lambda>(i, indent_count, bs, scanner). indent_count - i)") auto

declare deserialize_indents.simps [simp del]

function deserialize_delimiters ::
  "nat \<Rightarrow> nat \<Rightarrow> byte list \<Rightarrow> Scanner \<Rightarrow> Scanner \<times> byte list option" where
  "deserialize_delimiters i delim_count bs scanner =
     (if i < delim_count then
        (if length bs < 4 then (scanner, None)
         else deserialize_delimiters (i + 1) delim_count (drop 4 bs)
                (scanner\<lparr>delimiters := delimiters scanner @ [load32 bs]\<rparr>))
      else (scanner, Some bs))"
  by pat_completeness auto
termination
  by (relation "measure (\<lambda>(i, delim_count, bs, scanner). delim_count - i)") auto

declare deserialize_delimiters.simps [simp del]

definition deserialize :: "Scanner \<Rightarrow> byte list \<Rightarrow> Scanner" where
  "deserialize payload buffer =
     (let scanner = payload\<lparr>indents := [], delimiters := [], inside_f_string := False\<rparr>
      in if length buffer = 0 then scanner
         else if length buffer < 4 then scanner
         else
           case deserialize_indents 0 (unat (load32 buffer)) (drop 4 buffer) scanner of
             (scanner1, None) \<Rightarrow> scanner1
           | (scanner1, Some bs1) \<Rightarrow>
               if length bs1 < 4 then scanner1
               else
                 case deserialize_delimiters 0 (unat (load32 bs1)) (drop 4 bs1) scanner1 of
                   (scanner2, None) \<Rightarrow> scanner2
                 | (scanner2, Some bs2) \<Rightarrow>
                     if 1 \<le> length bs2
                     then scanner2\<lparr>inside_f_string := (bs2 ! 0 = 1)\<rparr>
                     else scanner2)"

text \<open>
  The number of bytes of the encoding of a state: a 32-bit count and the 16-bit indents,
  a 32-bit count and the 32-bit delimiters, and the flag byte.
\<close>

definition encoded_size :: "Scanner \<Rightarrow> nat" where
  "encoded_size scanner =
     4 + 2 * length (indents scanner) + 4 + 4 * length (delimiters scanner) + 1"

subsection \<open>The states of a scan sequence\<close>

text \<open>
  The states the scanner can be in: the state that \<open>create\<close> returns, and every state
  that a scan call leaves behind when started in such a state, at any cursor and with any
  set of acceptable kinds.
\<close>

inductive reachable :: "Scanner \<Rightarrow> bool" where
  initial: "reachable create"
| step: "reachable scanner \<Longrightarrow> scan scanner lexer valid = (found, scanner', lexer') \<Longrightarrow>
         reachable scanner'"

text \<open>
  The interpolation flag agrees with the delimiter stack: it is the format bit
  \<^verbatim>\<open>0x400\<close> of the top delimiter, and false when the stack is empty.
\<close>

definition interpolation_flag_ok :: "Scanner \<Rightarrow> bool" where
  "interpolation_flag_ok scanner =
     (inside_f_string scanner
        = (delimiters scanner \<noteq> [] \<and> last (delimiters scanner) AND 0x400 \<noteq> 0))"

text \<open>
  The text of the format-string scenario: \<^verbatim>\<open>f'''abc{{def'''\<close>, the input of the
  specification with the prefix letter that puts the string in format mode.
\<close>

definition fstring_text :: "32 word list" where
  "fstring_text =
     [0x66, CH_SQUOTE, CH_SQUOTE, CH_SQUOTE, 0x61, 0x62, 0x63, CH_LBRACE, CH_LBRACE,
      0x64, 0x65, 0x66, CH_SQUOTE, CH_SQUOTE, CH_SQUOTE]"

section \<open>Properties of the serialization\<close>

lemma load16_store16: "load16 (store16 w @ bs) = w"
  unfolding load16_def store16_def
  by (simp; rule bit_word_eqI; auto simp: bit_simps)

lemma load32_store32: "load32 (store32 w @ bs) = w"
  unfolding load32_def store32_def
  apply simp
  apply (rule bit_word_eqI)
  apply (auto simp: bit_simps)
  subgoal for n by (cases "24 \<le> n") auto
  done

lemma length_store16: "length (store16 w) = 2"
  by (simp add: store16_def)

lemma length_store32: "length (store32 w) = 4"
  by (simp add: store32_def)

lemma length_concat_store16: "length (concat (map store16 xs)) = 2 * length xs"
  by (induction xs) (simp_all add: length_store16)

lemma length_concat_store32: "length (concat (map store32 xs)) = 4 * length xs"
  by (induction xs) (simp_all add: length_store32)

lemma serialize_indents_fits:
  "length buffer + 2 * length xs \<le> TREE_SITTER_SERIALIZATION_BUFFER_SIZE \<Longrightarrow>
   serialize_indents xs buffer = Some (buffer @ concat (map store16 xs))"
  by (induction xs arbitrary: buffer) (simp_all add: length_store16)

lemma serialize_delimiters_fits:
  "length buffer + 4 * length xs \<le> TREE_SITTER_SERIALIZATION_BUFFER_SIZE \<Longrightarrow>
   serialize_delimiters xs buffer = Some (buffer @ concat (map store32 xs))"
  by (induction xs arbitrary: buffer) (simp_all add: length_store32)

lemma serialize_fits:
  assumes "encoded_size S \<le> TREE_SITTER_SERIALIZATION_BUFFER_SIZE"
  shows "serialize S =
           store32 (of_nat (length (indents S))) @ concat (map store16 (indents S))
           @ store32 (of_nat (length (delimiters S))) @ concat (map store32 (delimiters S))
           @ [if inside_f_string S then 1 else 0]"
  using assms
  by (simp add: serialize_def Let_def serialize_indents_fits serialize_delimiters_fits
        length_store32 length_concat_store16 length_concat_store32 encoded_size_def)

lemma deserialize_indents_whole:
  "i + length xs = n \<Longrightarrow>
   deserialize_indents i n (concat (map store16 xs) @ tail) scanner =
     (scanner\<lparr>indents := indents scanner @ xs\<rparr>, Some tail)"
proof (induction xs arbitrary: i scanner)
  case Nil
  then show ?case by (subst deserialize_indents.simps) simp
next
  case (Cons x xs)
  from Cons.prems have "i < n" and "Suc i + length xs = n" by simp_all
  then show ?case
    by (subst deserialize_indents.simps)
       (simp add: length_store16 load16_store16 Cons.IH)
qed

lemma deserialize_delimiters_whole:
  "i + length xs = n \<Longrightarrow>
   deserialize_delimiters i n (concat (map store32 xs) @ tail) scanner =
     (scanner\<lparr>delimiters := delimiters scanner @ xs\<rparr>, Some tail)"
proof (induction xs arbitrary: i scanner)
  case Nil
  then show ?case by (subst deserialize_delimiters.simps) simp
next
  case (Cons x xs)
  from Cons.prems have "i < n" and "Suc i + length xs = n" by simp_all
  then show ?case
    by (subst deserialize_delimiters.simps)
       (simp add: length_store32 load32_store32 Cons.IH)
qed

lemma unat_count: "n \<le> TREE_SITTER_SERIALIZATION_BUFFER_SIZE \<Longrightarrow> unat (of_nat n :: 32 word) = n"
  by (simp add: unat_of_nat TREE_SITTER_SERIALIZATION_BUFFER_SIZE_def)

text \<open>
  A state whose encoding does not fit is not serialized: the result is empty, the
  \<^verbatim>\<open>return 0\<close> of the source.
\<close>

lemma serialize_indents_result:
  "serialize_indents xs buffer =
     (if xs = [] \<or> length buffer + 2 * length xs \<le> TREE_SITTER_SERIALIZATION_BUFFER_SIZE
      then Some (buffer @ concat (map store16 xs)) else None)"
  by (induction xs arbitrary: buffer) (auto simp: length_store16)

lemma serialize_delimiters_result:
  "serialize_delimiters xs buffer =
     (if xs = [] \<or> length buffer + 4 * length xs \<le> TREE_SITTER_SERIALIZATION_BUFFER_SIZE
      then Some (buffer @ concat (map store32 xs)) else None)"
  by (induction xs arbitrary: buffer) (auto simp: length_store32)

lemma serialize_overflow:
  assumes "TREE_SITTER_SERIALIZATION_BUFFER_SIZE < encoded_size S"
  shows "serialize S = []"
  using assms
  by (auto simp: serialize_def Let_def serialize_indents_result serialize_delimiters_result
        length_store32 length_concat_store16 length_concat_store32 encoded_size_def)

text \<open>
  Claim C2. For every scanner state whose encoding fits the capacity of the serialization
  buffer, deserializing the bytes that serialize produces gives the state back: the same
  indent stack, the same delimiter stack and the same interpolation flag, whatever the
  scanner deserialized into held before. The bytes are a function of the three fields of
  the state alone, and there are \<open>encoded_size S\<close> of them. The theorem holds for every
  state, reachable or not; a state that does not fit has no encoding
  (\<open>serialize_overflow\<close>).
\<close>

theorem serialize_deserialize_roundtrip:
  assumes "encoded_size S \<le> TREE_SITTER_SERIALIZATION_BUFFER_SIZE"
  shows "deserialize payload (serialize S) = S \<and> length (serialize S) = encoded_size S"
proof -
  have k: "unat (of_nat (length (indents S)) :: 32 word) = length (indents S)"
    and m: "unat (of_nat (length (delimiters S)) :: 32 word) = length (delimiters S)"
    using assms by (simp_all add: unat_count encoded_size_def)
  have len: "length (serialize S) = encoded_size S"
    by (simp add: serialize_fits [OF assms] encoded_size_def length_store32
          length_concat_store16 length_concat_store32)
  have "deserialize payload (serialize S) =
          \<lparr>indents = indents S, delimiters = delimiters S,
           inside_f_string = inside_f_string S\<rparr>"
    by (simp add: serialize_fits [OF assms] deserialize_def Let_def length_store32
          load32_store32 k m deserialize_indents_whole deserialize_delimiters_whole)
  with len show ?thesis by simp
qed


theorem serialize_deserialize_roundtrip_witness:
  "encoded_size \<lparr>indents = [4, 8], delimiters = [0x427], inside_f_string = True\<rparr>
     \<le> TREE_SITTER_SERIALIZATION_BUFFER_SIZE
   \<and> deserialize create
         (serialize \<lparr>indents = [4, 8], delimiters = [0x427], inside_f_string = True\<rparr>)
       = \<lparr>indents = [4, 8], delimiters = [0x427], inside_f_string = True\<rparr>
   \<and> length (serialize \<lparr>indents = [4, 8], delimiters = [0x427], inside_f_string = True\<rparr>)
       = 17"
  using serialize_deserialize_roundtrip
          [of "\<lparr>indents = [4, 8], delimiters = [0x427], inside_f_string = True\<rparr>" create]
  by (simp add: encoded_size_def TREE_SITTER_SERIALIZATION_BUFFER_SIZE_def)

lemma deserialize_indents_truncated:
  "i + length xs = n \<Longrightarrow> m < 2 * length xs \<Longrightarrow>
   deserialize_indents i n (take m (concat (map store16 xs))) scanner =
     (scanner\<lparr>indents := indents scanner @ take (m div 2) xs\<rparr>, None)"
proof (induction xs arbitrary: i scanner m)
  case Nil
  then show ?case by simp
next
  case (Cons x xs)
  from Cons.prems have lt: "i < n" and n: "Suc i + length xs = n" by simp_all
  show ?case
  proof (cases "m < 2")
    case True
    then have "m div 2 = 0" by simp
    with True lt show ?thesis
      by (subst deserialize_indents.simps) (simp add: length_store16)
  next
    case False
    have m: "m - 2 < 2 * length xs"
      using False Cons.prems by simp
    have d: "m div 2 = Suc ((m - 2) div 2)"
      using False by presburger
    have t: "take m (concat (map store16 (x # xs))) =
             store16 x @ take (m - 2) (concat (map store16 xs))"
      using False by (simp add: length_store16)
    show ?thesis
      using lt False
      by (subst deserialize_indents.simps)
         (simp only: t, simp add: length_store16 load16_store16 Cons.IH [OF n m] d)
  qed
qed

lemma deserialize_delimiters_truncated:
  "i + length xs = n \<Longrightarrow> m < 4 * length xs \<Longrightarrow>
   deserialize_delimiters i n (take m (concat (map store32 xs))) scanner =
     (scanner\<lparr>delimiters := delimiters scanner @ take (m div 4) xs\<rparr>, None)"
proof (induction xs arbitrary: i scanner m)
  case Nil
  then show ?case by simp
next
  case (Cons x xs)
  from Cons.prems have lt: "i < n" and n: "Suc i + length xs = n" by simp_all
  show ?case
  proof (cases "m < 4")
    case True
    then have "m div 4 = 0" by simp
    with True lt show ?thesis
      by (subst deserialize_delimiters.simps) (simp add: length_store32)
  next
    case False
    have m: "m - 4 < 4 * length xs"
      using False Cons.prems by simp
    have d: "m div 4 = Suc ((m - 4) div 4)"
      using False by presburger
    have t: "take m (concat (map store32 (x # xs))) =
             store32 x @ take (m - 4) (concat (map store32 xs))"
      using False by (simp add: length_store32)
    show ?thesis
      using lt False
      by (subst deserialize_delimiters.simps)
         (simp only: t, simp add: length_store32 load32_store32 Cons.IH [OF n m] d)
  qed
qed


lemma deserialize_short:
  "length buffer < 4 \<Longrightarrow>
   deserialize payload buffer = \<lparr>indents = [], delimiters = [], inside_f_string = False\<rparr>"
  by (simp add: deserialize_def Let_def)

lemma deserialize_counted:
  "deserialize payload (store32 c @ rest) =
     (case deserialize_indents 0 (unat c) rest
             (payload\<lparr>indents := [], delimiters := [], inside_f_string := False\<rparr>) of
        (scanner1, None) \<Rightarrow> scanner1
      | (scanner1, Some bs1) \<Rightarrow>
          if length bs1 < 4 then scanner1
          else
            case deserialize_delimiters 0 (unat (load32 bs1)) (drop 4 bs1) scanner1 of
              (scanner2, None) \<Rightarrow> scanner2
            | (scanner2, Some bs2) \<Rightarrow>
                if 1 \<le> length bs2
                then scanner2\<lparr>inside_f_string := (bs2 ! 0 = 1)\<rparr>
                else scanner2)"
  by (simp add: deserialize_def Let_def length_store32 load32_store32)

lemma deserialize_prefix:
  assumes fits: "encoded_size S \<le> TREE_SITTER_SERIALIZATION_BUFFER_SIZE"
    and n: "n < encoded_size S"
  shows "deserialize payload (take n (serialize S)) =
           \<lparr>indents = take ((n - 4) div 2) (indents S),
            delimiters = take ((n - (8 + 2 * length (indents S))) div 4) (delimiters S),
            inside_f_string = False\<rparr>"
proof -
  define k where "k = length (indents S)"
  define m where "m = length (delimiters S)"
  define A :: "byte list" where "A = store32 (of_nat k)"
  define B where "B = concat (map store16 (indents S))"
  define C :: "byte list" where "C = store32 (of_nat m)"
  define D where "D = concat (map store32 (delimiters S))"
  define f :: byte where "f = (if inside_f_string S then 1 else 0)"
  have ser: "serialize S = A @ B @ C @ D @ [f]"
    by (simp add: serialize_fits [OF fits] A_def B_def C_def D_def f_def k_def m_def)
  have lA: "length A = 4" and lB: "length B = 2 * k" and lC: "length C = 4"
    and lD: "length D = 4 * m"
    by (simp_all add: A_def B_def C_def D_def k_def m_def length_store32
          length_concat_store16 length_concat_store32)
  have uk: "unat (of_nat k :: 32 word) = k" and um: "unat (of_nat m :: 32 word) = m"
    using fits by (simp_all add: unat_count encoded_size_def k_def m_def)
  have n': "n < 9 + 2 * k + 4 * m"
    using n by (simp add: encoded_size_def k_def m_def)
  consider (a) "n < 4" | (b) "4 \<le> n" "n < 4 + 2 * k" | (c) "4 + 2 * k \<le> n" "n < 8 + 2 * k"
    | (d) "8 + 2 * k \<le> n" "n < 8 + 2 * k + 4 * m" | (e) "n = 8 + 2 * k + 4 * m"
    using n' by linarith
  then show ?thesis
  proof cases
    case a
    then have "length (take n (serialize S)) < 4" by simp
    then show ?thesis
      using a by (simp add: deserialize_short)
  next
    case b
    then have t: "take n (serialize S) = A @ take (n - 4) B"
      by (simp add: ser lA lB)
    have "deserialize_indents 0 k (take (n - 4) B) sc =
            (sc\<lparr>indents := indents sc @ take ((n - 4) div 2) (indents S)\<rparr>, None)" for sc
      unfolding B_def using b by (intro deserialize_indents_truncated) (simp_all add: k_def)
    then show ?thesis
      using b by (simp add: t A_def deserialize_counted uk flip: k_def)
  next
    case c
    then have t: "take n (serialize S) = A @ B @ take (n - (4 + 2 * k)) C"
      by (simp add: ser lA lB lC)
    have "deserialize_indents 0 k (B @ tl) sc =
            (sc\<lparr>indents := indents sc @ indents S\<rparr>, Some tl)" for sc tl
      unfolding B_def by (intro deserialize_indents_whole) (simp add: k_def)
    then show ?thesis
      using c by (simp add: t A_def deserialize_counted uk lC flip: k_def)
  next
    case d
    then have t: "take n (serialize S) = A @ B @ C @ take (n - (8 + 2 * k)) D"
      by (simp add: ser lA lB lC lD)
    have i: "deserialize_indents 0 k (B @ tl) sc =
            (sc\<lparr>indents := indents sc @ indents S\<rparr>, Some tl)" for sc tl
      unfolding B_def by (intro deserialize_indents_whole) (simp add: k_def)
    have "deserialize_delimiters 0 m (take (n - (8 + 2 * k)) D) sc =
            (sc\<lparr>delimiters := delimiters sc @ take ((n - (8 + 2 * k)) div 4) (delimiters S)\<rparr>,
             None)" for sc
      unfolding D_def using d by (intro deserialize_delimiters_truncated) (simp_all add: m_def)
    then show ?thesis
      using d by (simp add: t A_def deserialize_counted uk i)
                (simp add: C_def length_store32 load32_store32 um flip: k_def)
  next
    case e
    then have t: "take n (serialize S) = A @ B @ C @ D"
      by (simp add: ser lA lB lC lD)
    have i: "deserialize_indents 0 k (B @ tl) sc =
            (sc\<lparr>indents := indents sc @ indents S\<rparr>, Some tl)" for sc tl
      unfolding B_def by (intro deserialize_indents_whole) (simp add: k_def)
    have "deserialize_delimiters 0 m (D @ tl) sc =
            (sc\<lparr>delimiters := delimiters sc @ delimiters S\<rparr>, Some tl)" for sc tl
      unfolding D_def by (intro deserialize_delimiters_whole) (simp add: m_def)
    from this [of "[]"]
    have r: "deserialize payload (A @ B @ C @ D) =
               \<lparr>indents = indents S, delimiters = delimiters S, inside_f_string = False\<rparr>"
      by (simp add: A_def deserialize_counted uk i)
         (simp add: C_def length_store32 load32_store32 um)
    have "(n - 4) div 2 \<ge> k" and "(n - (8 + 2 * k)) div 4 \<ge> m"
      using e by simp_all
    then show ?thesis
      unfolding t r by (simp add: k_def m_def)
  qed
qed

text \<open>
  Claim C1, as amended. Deserialize is a total function of the buffer: it terminates and
  raises nothing on every list of bytes. A buffer shorter than the four bytes of the
  indent count, the empty one among them, gives the all-empty state. A buffer cut off
  later does not: of a serialization cut after \<open>n\<close> bytes the entries that lie wholly
  within the first \<open>n\<close> bytes are restored, the indents first and then the delimiters,
  and the interpolation flag is false.
\<close>

theorem deserialize_truncated:
  "(length buffer < 4 \<longrightarrow>
      deserialize payload buffer
        = \<lparr>indents = [], delimiters = [], inside_f_string = False\<rparr>)
   \<and> (encoded_size S \<le> TREE_SITTER_SERIALIZATION_BUFFER_SIZE \<and> n < encoded_size S \<longrightarrow>
      deserialize payload (take n (serialize S))
        = \<lparr>indents = take ((n - 4) div 2) (indents S),
           delimiters = take ((n - (8 + 2 * length (indents S))) div 4) (delimiters S),
           inside_f_string = False\<rparr>)"
  using deserialize_short [of buffer payload] deserialize_prefix [of S n payload]
  by blast

theorem deserialize_truncated_witness:
  "length [1, 2, 3 :: byte] < 4
   \<and> deserialize create [1, 2, 3]
        = \<lparr>indents = [], delimiters = [], inside_f_string = False\<rparr>
   \<and> encoded_size \<lparr>indents = [4, 8], delimiters = [0x427], inside_f_string = True\<rparr>
        \<le> TREE_SITTER_SERIALIZATION_BUFFER_SIZE
   \<and> 7 < encoded_size \<lparr>indents = [4, 8], delimiters = [0x427], inside_f_string = True\<rparr>
   \<and> deserialize create
         (take 7 (serialize \<lparr>indents = [4, 8], delimiters = [0x427], inside_f_string = True\<rparr>))
        = \<lparr>indents = [4], delimiters = [], inside_f_string = False\<rparr>"
  using deserialize_truncated [of "[1, 2, 3]" create
          "\<lparr>indents = [4, 8], delimiters = [0x427], inside_f_string = True\<rparr>" 7]
  by (simp add: encoded_size_def TREE_SITTER_SERIALIZATION_BUFFER_SIZE_def)

text \<open>
  The claim as stated fails: the six bytes below are a count of two indents followed by
  one indent only, and deserializing them leaves that one indent on the stack.
\<close>

theorem deserialize_truncated_counterexample:
  "take 6 (serialize \<lparr>indents = [4, 8], delimiters = [], inside_f_string = False\<rparr>)
     = [2, 0, 0, 0, 4, 0]
   \<and> deserialize create [2, 0, 0, 0, 4, 0]
       = \<lparr>indents = [4], delimiters = [], inside_f_string = False\<rparr>
   \<and> deserialize create [2, 0, 0, 0, 4, 0]
       \<noteq> \<lparr>indents = [], delimiters = [], inside_f_string = False\<rparr>"
  by code_simp

section \<open>Properties of the dispatcher at the end of the input\<close>

text \<open>
  Claim C4. For every non-empty indent stack, a scan call at the end of the input with
  DEDENT acceptable pops exactly one level and emits DEDENT, whatever else is acceptable
  and whatever the delimiter stack holds; nothing else of the scanner or of the cursor
  changes. Repeated calls therefore drain the stack one level per call: from the stack
  [4, 8, 12] three calls leave [4, 8], [4] and [].
\<close>

theorem scan_eof_dedent:
  assumes "valid DEDENT" and "indents scanner \<noteq> []" and "eof lexer"
  shows "scan scanner lexer valid =
           (True, scanner\<lparr>indents := butlast (indents scanner)\<rparr>,
            lexer\<lparr>result_symbol := DEDENT\<rparr>)"
  using assms by (simp add: scan_def)

theorem scan_eof_dedent_witness:
  "accepting [DEDENT] DEDENT \<and> eof (lexer_at [] 0)
   \<and> scan \<lparr>indents = [4, 8, 12], delimiters = [], inside_f_string = False\<rparr>
        (lexer_at [] 0) (accepting [DEDENT])
      = (True, \<lparr>indents = [4, 8], delimiters = [], inside_f_string = False\<rparr>,
         (lexer_at [] 0)\<lparr>result_symbol := DEDENT\<rparr>)
   \<and> scan \<lparr>indents = [4, 8], delimiters = [], inside_f_string = False\<rparr>
        (lexer_at [] 0) (accepting [DEDENT])
      = (True, \<lparr>indents = [4], delimiters = [], inside_f_string = False\<rparr>,
         (lexer_at [] 0)\<lparr>result_symbol := DEDENT\<rparr>)
   \<and> scan \<lparr>indents = [4], delimiters = [], inside_f_string = False\<rparr>
        (lexer_at [] 0) (accepting [DEDENT])
      = (True, \<lparr>indents = [], delimiters = [], inside_f_string = False\<rparr>,
         (lexer_at [] 0)\<lparr>result_symbol := DEDENT\<rparr>)"
  using scan_eof_dedent [of "accepting [DEDENT]"
          "\<lparr>indents = [4, 8, 12], delimiters = [], inside_f_string = False\<rparr>" "lexer_at [] 0"]
        scan_eof_dedent [of "accepting [DEDENT]"
          "\<lparr>indents = [4, 8], delimiters = [], inside_f_string = False\<rparr>" "lexer_at [] 0"]
        scan_eof_dedent [of "accepting [DEDENT]"
          "\<lparr>indents = [4], delimiters = [], inside_f_string = False\<rparr>" "lexer_at [] 0"]
  by (simp add: accepting_def eof_def lexer_at_def)

section \<open>What a scan call changes\<close>

subsection \<open>The indentation tracker\<close>

lemma result_symbol_skip [simp]: "result_symbol (skip lx) = result_symbol lx"
  by (cases "input lx") (simp_all add: skip_def)

lemma result_symbol_advance [simp]: "result_symbol (advance lx) = result_symbol lx"
  by (cases "input lx") (simp_all add: advance_def)

lemma result_symbol_skip_comment: "result_symbol (skip_comment lx) = result_symbol lx"
proof (induction lx rule: skip_comment.induct)
  case (1 lx)
  then show ?case by (subst skip_comment.simps) simp
qed

lemma result_symbol_count_indent:
  "result_symbol (snd (count_indent n lx)) = result_symbol lx"
proof (induction n lx rule: count_indent.induct)
  case (1 indent lx)
  then show ?case by (subst count_indent.simps) simp
qed

lemma result_symbol_skip_blank_line:
  "result_symbol (snd (skip_blank_line lx)) = result_symbol lx"
  by (simp add: skip_blank_line_def Let_def result_symbol_count_indent
        result_symbol_skip_comment)

lemma result_symbol_skip_blank_lines:
  "result_symbol (snd (skip_blank_lines n lx)) = result_symbol lx"
proof (induction n lx rule: skip_blank_lines.induct)
  case (1 indent lx)
  show ?case
  proof (cases "is_newline (lookahead lx) \<or> lookahead lx = CH_HASH")
    case True
    obtain w lx' where r: "skip_blank_line lx = (w, lx')"
      by (cases "skip_blank_line lx")
    from "1.IH" [OF True r [symmetric]]
    have "result_symbol (snd (skip_blank_lines w lx')) = result_symbol lx'" .
    moreover from r have "result_symbol lx' = result_symbol lx"
      using result_symbol_skip_blank_line [of lx] by simp
    ultimately show ?thesis
      using True r by (subst skip_blank_lines.simps) simp
  next
    case False
    then show ?thesis by (subst skip_blank_lines.simps) simp
  qed
qed

lemma result_symbol_measure_indent:
  "result_symbol (snd (measure_indent lx)) = result_symbol lx"
proof -
  obtain indent lx1 where c: "count_indent 0 lx = (indent, lx1)"
    by (cases "count_indent 0 lx")
  with result_symbol_count_indent [of 0 lx] have "result_symbol lx1 = result_symbol lx"
    by simp
  with c show ?thesis
    by (simp add: measure_indent_def result_symbol_skip_blank_lines)
qed

lemma result_symbol_consume_newline: "result_symbol (consume_newline lx) = NEWLINE"
  by (simp add: consume_newline_def Let_def mark_end_def)

lemma indent_decision_frame:
  assumes "indent_decision scanner valid indent lx = (found, scanner', lx')"
  shows "delimiters scanner' = delimiters scanner"
    and "inside_f_string scanner' = inside_f_string scanner"
    and "\<not> found \<Longrightarrow> scanner' = scanner"
    and "found \<Longrightarrow> result_symbol lx = NEWLINE \<Longrightarrow>
         result_symbol lx' \<in> {NEWLINE, INDENT, DEDENT}"
  using assms by (auto simp: indent_decision_def Let_def split: if_splits)

lemma scan_newline_frame:
  assumes "scan_newline scanner lexer valid = (found, scanner', lexer')"
  shows "delimiters scanner' = delimiters scanner"
    and "inside_f_string scanner' = inside_f_string scanner"
    and "\<not> found \<Longrightarrow> scanner' = scanner"
    and "found \<Longrightarrow> result_symbol lexer' \<in> {NEWLINE, INDENT, DEDENT}"
proof -
  define lx where "lx = skip_to_newline lexer"
  obtain indent lx1 where m: "measure_indent (consume_newline lx) = (indent, lx1)"
    by (cases "measure_indent (consume_newline lx)")
  with result_symbol_measure_indent [of "consume_newline lx"]
  have r: "result_symbol lx1 = NEWLINE"
    by (simp add: result_symbol_consume_newline)
  from assms m have *:
    "(if \<not> is_newline (lookahead lx) then (False, scanner, lx)
      else indent_decision scanner valid indent lx1) = (found, scanner', lexer')"
    by (auto simp: scan_newline_def Let_def lx_def split: if_splits)
  show "delimiters scanner' = delimiters scanner"
    using * indent_decision_frame(1) [of scanner valid indent lx1 found scanner' lexer']
    by (cases "is_newline (lookahead lx)") simp_all
  show "inside_f_string scanner' = inside_f_string scanner"
    using * indent_decision_frame(2) [of scanner valid indent lx1 found scanner' lexer']
    by (cases "is_newline (lookahead lx)") simp_all
  show "scanner' = scanner" if "\<not> found"
    using * that indent_decision_frame(3) [of scanner valid indent lx1 found scanner' lexer']
    by (cases "is_newline (lookahead lx)") simp_all
  show "result_symbol lexer' \<in> {NEWLINE, INDENT, DEDENT}" if "found"
    using * that r indent_decision_frame(4) [of scanner valid indent lx1 found scanner' lexer']
    by (cases "is_newline (lookahead lx)") simp_all
qed

subsection \<open>The string tokenizer\<close>

lemma string_content_round_kinds:
  "string_content_round q t r f h lx = Exit (Return True lx') \<Longrightarrow>
   result_symbol lx' = STRING_CONTENT \<or> result_symbol lx' = ESCAPE_INTERPOLATION"
  by (auto simp: string_content_round_def Let_def mark_end_def split: if_splits)

lemma string_content_loop_kinds:
  "string_content_loop q t r f h lx = Return True lx' \<Longrightarrow>
   result_symbol lx' = STRING_CONTENT \<or> result_symbol lx' = ESCAPE_INTERPOLATION"
proof (induction q t r f h lx rule: string_content_loop.induct)
  case (1 q t r f h lx)
  show ?case
  proof (cases "string_content_round q t r f h lx")
    case (Exit e)
    with "1.prems" have "string_content_round q t r f h lx = Exit (Return True lx')"
      by (subst (asm) string_content_loop.simps) simp
    then show ?thesis by (rule string_content_round_kinds)
  next
    case (Continue lx1)
    with "1.prems" have "string_content_loop q t r f True lx1 = Return True lx'"
      by (subst (asm) string_content_loop.simps) simp
    with "1.IH" [OF Continue] show ?thesis .
  qed
qed

lemma delimiter_format_bit:
  assumes "q = CH_DQUOTE \<or> q = CH_SQUOTE"
  shows "((q OR (if t then 0x100 else 0) OR (if r then 0x200 else 0)
            OR (if f then 0x400 else 0)) AND 0x400 \<noteq> (0 :: 32 word)) = f"
  using assms by (cases t; cases r; cases f) auto

lemma string_start_found_frame:
  assumes "string_start_found scanner q t r f lx = (found, scanner', lx')"
  shows "indents scanner' = indents scanner"
    and "found"
    and "result_symbol lx' = STRING_START"
    and "q = CH_DQUOTE \<or> q = CH_SQUOTE \<Longrightarrow> interpolation_flag_ok scanner'"
proof -
  from assms show "indents scanner' = indents scanner" and "found"
    and "result_symbol lx' = STRING_START"
    by (auto simp: string_start_found_def Let_def)
  assume q: "q = CH_DQUOTE \<or> q = CH_SQUOTE"
  from assms have "delimiters scanner' \<noteq> []"
    and "last (delimiters scanner') = (q OR (if t then 0x100 else 0)
           OR (if r then 0x200 else 0) OR (if f then 0x400 else 0))"
    and "inside_f_string scanner' = f"
    by (auto simp: string_start_found_def Let_def)
  with delimiter_format_bit [OF q, of t r f] show "interpolation_flag_ok scanner'"
    by (simp add: interpolation_flag_ok_def)
qed

lemma string_end_found_frame:
  assumes "string_end_found scanner lx = (found, scanner', lx')"
  shows "indents scanner' = indents scanner"
    and "found"
    and "result_symbol lx' = STRING_END"
    and "interpolation_flag_ok scanner'"
  using assms
  by (auto simp: string_end_found_def Let_def interpolation_flag_ok_def mark_end_def)

lemma scan_string_end_frame:
  assumes "scan_string_end scanner lx valid = (found, scanner', lx')"
  shows "indents scanner' = indents scanner"
    and "\<not> found \<Longrightarrow> scanner' = scanner"
    and "found \<Longrightarrow> result_symbol lx' = STRING_END"
    and "interpolation_flag_ok scanner \<Longrightarrow> interpolation_flag_ok scanner'"
  using assms
  by (auto simp: scan_string_end_def Let_def split: if_splits
           dest: string_end_found_frame)

lemma scan_string_content_frame:
  assumes "scan_string_content scanner lx valid = (found, scanner', lx')"
  shows "indents scanner' = indents scanner"
    and "\<not> found \<Longrightarrow> scanner' = scanner"
    and "found \<Longrightarrow> result_symbol lx' \<in> {STRING_CONTENT, ESCAPE_INTERPOLATION, STRING_END}"
    and "interpolation_flag_ok scanner \<Longrightarrow> interpolation_flag_ok scanner'"
proof -
  define d where "d = last (delimiters scanner)"
  define e where "e = string_content_loop (d AND 0xFF) (d AND 0x100 \<noteq> 0)
                        (d AND 0x200 \<noteq> 0) (d AND 0x400 \<noteq> 0) False lx"
  consider (none) "\<not> (valid STRING_CONTENT \<and> delimiters scanner \<noteq> [])"
    | (ret) ok l where "valid STRING_CONTENT \<and> delimiters scanner \<noteq> []" "e = Return ok l"
    | (brk) h l where "valid STRING_CONTENT \<and> delimiters scanner \<noteq> []" "e = Break h l"
    by (cases e) auto
  then have "indents scanner' = indents scanner
      \<and> (\<not> found \<longrightarrow> scanner' = scanner)
      \<and> (found \<longrightarrow> result_symbol lx' \<in> {STRING_CONTENT, ESCAPE_INTERPOLATION, STRING_END})
      \<and> (interpolation_flag_ok scanner \<longrightarrow> interpolation_flag_ok scanner')"
  proof cases
    case none
    with assms have "scan_string_end scanner lx valid = (found, scanner', lx')"
      by (auto simp: scan_string_content_def)
    then show ?thesis
      using scan_string_end_frame [of scanner lx valid found scanner' lx'] by simp
  next
    case ret
    with assms have r: "found = ok" "scanner' = scanner" "lx' = l"
      by (simp_all add: scan_string_content_def Let_def flip: d_def e_def)
    with ret(2) string_content_loop_kinds [of "d AND 0xFF" "d AND 0x100 \<noteq> 0"
        "d AND 0x200 \<noteq> 0" "d AND 0x400 \<noteq> 0" False lx lx']
    show ?thesis by (auto simp: e_def)
  next
    case brk
    show ?thesis
    proof (cases h)
      case True
      with brk assms show ?thesis
        by (auto simp add: scan_string_content_def Let_def mark_end_def simp flip: d_def e_def)
    next
      case False
      with brk assms have "scan_string_end scanner l valid = (found, scanner', lx')"
        by (simp add: scan_string_content_def Let_def flip: d_def e_def)
      then show ?thesis
        using scan_string_end_frame [of scanner l valid found scanner' lx'] by simp
    qed
  qed
  then show "indents scanner' = indents scanner"
    and "\<not> found \<Longrightarrow> scanner' = scanner"
    and "found \<Longrightarrow> result_symbol lx' \<in> {STRING_CONTENT, ESCAPE_INTERPOLATION, STRING_END}"
    and "interpolation_flag_ok scanner \<Longrightarrow> interpolation_flag_ok scanner'"
    by simp_all
qed

lemma scan_string_frame:
  assumes "scan_string scanner lexer valid = (found, scanner', lexer')"
  shows "indents scanner' = indents scanner"
    and "\<not> found \<Longrightarrow> scanner' = scanner"
    and "found \<Longrightarrow> result_symbol lexer' \<in>
           {STRING_START, STRING_CONTENT, ESCAPE_INTERPOLATION, STRING_END}"
    and "interpolation_flag_ok scanner \<Longrightarrow> interpolation_flag_ok scanner'"
proof -
  obtain is_raw is_format is_bytes lx
    where p: "scan_prefix False False False lexer = (is_raw, is_format, is_bytes, lx)"
    by (cases "scan_prefix False False False lexer") auto
  define q where "q = lookahead lx"
  consider (content) l where "scan_string_content scanner l valid = (found, scanner', lexer')"
    | (empty) l where "(found, scanner', lexer')
          = (True, scanner, (mark_end l)\<lparr>result_symbol := STRING_START\<rparr>)"
    | (start) t l where "q = CH_DQUOTE \<or> q = CH_SQUOTE"
        "string_start_found scanner q t is_raw is_format l = (found, scanner', lexer')"
    using assms p
    by (auto simp: scan_string_def Let_def q_def split: if_splits)
  then have "indents scanner' = indents scanner
      \<and> (\<not> found \<longrightarrow> scanner' = scanner)
      \<and> (found \<longrightarrow> result_symbol lexer' \<in>
           {STRING_START, STRING_CONTENT, ESCAPE_INTERPOLATION, STRING_END})
      \<and> (interpolation_flag_ok scanner \<longrightarrow> interpolation_flag_ok scanner')"
  proof cases
    case content
    then show ?thesis
      using scan_string_content_frame [of scanner l valid found scanner' lexer'] by auto
  next
    case empty
    then show ?thesis by (simp add: mark_end_def)
  next
    case start
    then show ?thesis
      using string_start_found_frame [of scanner q t is_raw is_format l found scanner' lexer']
      by simp
  qed
  then show "indents scanner' = indents scanner"
    and "\<not> found \<Longrightarrow> scanner' = scanner"
    and "found \<Longrightarrow> result_symbol lexer' \<in>
           {STRING_START, STRING_CONTENT, ESCAPE_INTERPOLATION, STRING_END}"
    and "interpolation_flag_ok scanner \<Longrightarrow> interpolation_flag_ok scanner'"
    by simp_all
qed

subsection \<open>The dispatcher\<close>

lemma scan_cases:
  assumes "scan scanner lexer valid = (found, scanner', lexer')"
  obtains
    (eof) "found" "scanner' = scanner\<lparr>indents := butlast (indents scanner)\<rparr>"
          "lexer' = lexer\<lparr>result_symbol := DEDENT\<rparr>"
  | (string) "found" "scan_string scanner lexer valid = (True, scanner', lexer')"
  | (newline) lx where "scan_newline scanner lx valid = (found, scanner', lexer')"
  | (neither) "\<not> found" "scanner' = scanner"
proof (cases "valid DEDENT \<and> indents scanner \<noteq> [] \<and> eof lexer")
  case True
  with assms eof show ?thesis by (simp add: scan_def)
next
  case False
  show ?thesis
  proof (cases "valid STRING_START \<or> valid STRING_CONTENT \<or> valid STRING_END
                  \<or> valid ESCAPE_INTERPOLATION")
    case tried: True
    obtain f1 s1 l1 where r: "scan_string scanner lexer valid = (f1, s1, l1)"
      by (cases "scan_string scanner lexer valid") auto
    show ?thesis
    proof (cases f1)
      case True
      with assms False tried r string show ?thesis by (simp add: scan_def)
    next
      case nf: False
      with r have s1: "s1 = scanner" by (simp add: scan_string_frame(2))
      show ?thesis
      proof (cases "valid NEWLINE \<or> valid INDENT \<or> valid DEDENT")
        case True
        with assms False tried r nf s1
        have "scan_newline scanner l1 valid = (found, scanner', lexer')"
          by (simp add: scan_def)
        then show ?thesis by (rule newline)
      next
        case no: False
        with assms False tried r nf s1 neither show ?thesis by (simp add: scan_def)
      qed
    qed
  next
    case untried: False
    show ?thesis
    proof (cases "valid NEWLINE \<or> valid INDENT \<or> valid DEDENT")
      case True
      with assms False untried
      have "scan_newline scanner lexer valid = (found, scanner', lexer')"
        by (simp add: scan_def)
      then show ?thesis by (rule newline)
    next
      case no: False
      with assms False untried neither show ?thesis by (simp add: scan_def)
    qed
  qed
qed

text \<open>
  Claim C10. A scan call that emits NEWLINE, INDENT or DEDENT leaves the delimiter stack
  and the interpolation flag as they were, and a scan call that emits STRING_START,
  STRING_CONTENT, ESCAPE_INTERPOLATION or STRING_END leaves the indent stack as it was.
  The kind emitted is the result symbol of the cursor when the call returns true.
\<close>

theorem scan_frame:
  assumes "scan scanner lexer valid = (True, scanner', lexer')"
  shows "(result_symbol lexer' \<in> {NEWLINE, INDENT, DEDENT} \<longrightarrow>
            delimiters scanner' = delimiters scanner
            \<and> inside_f_string scanner' = inside_f_string scanner)
         \<and> (result_symbol lexer' \<in>
              {STRING_START, STRING_CONTENT, ESCAPE_INTERPOLATION, STRING_END} \<longrightarrow>
            indents scanner' = indents scanner)"
  using assms
proof (cases rule: scan_cases)
  case eof
  then show ?thesis by simp
next
  case string
  from scan_string_frame(1,3) [OF string(2)] show ?thesis by auto
next
  case (newline lx)
  from scan_newline_frame(1,2,4) [OF newline] show ?thesis by auto
next
  case neither
  then show ?thesis by simp
qed

theorem scan_frame_witness:
  "scan \<lparr>indents = [4], delimiters = [0x427], inside_f_string = True\<rparr>
        (lexer_at [CH_LF, CH_SPACE, CH_SPACE, 0x78] 0) (accepting [DEDENT, NEWLINE])
     = (True, \<lparr>indents = [], delimiters = [0x427], inside_f_string = True\<rparr>,
        \<lparr>input = [0x78], position = 3, token_start = 3, token_end = Some 1,
         result_symbol = DEDENT\<rparr>)
   \<and> scan \<lparr>indents = [4], delimiters = [0x427], inside_f_string = True\<rparr>
        (lexer_at [CH_SQUOTE, CH_LF] 0) (accepting [STRING_END])
     = (True, \<lparr>indents = [4], delimiters = [], inside_f_string = False\<rparr>,
        \<lparr>input = [CH_LF], position = 1, token_start = 0, token_end = Some 1,
         result_symbol = STRING_END\<rparr>)"
proof -
  have a: "scan \<lparr>indents = [4], delimiters = [0x427], inside_f_string = True\<rparr>
        (lexer_at [CH_LF, CH_SPACE, CH_SPACE, 0x78] 0) (accepting [DEDENT, NEWLINE])
     = (True, \<lparr>indents = [], delimiters = [0x427], inside_f_string = True\<rparr>,
        \<lparr>input = [0x78], position = 3, token_start = 3, token_end = Some 1,
         result_symbol = DEDENT\<rparr>)"
    by code_simp
  have b: "scan \<lparr>indents = [4], delimiters = [0x427], inside_f_string = True\<rparr>
        (lexer_at [CH_SQUOTE, CH_LF] 0) (accepting [STRING_END])
     = (True, \<lparr>indents = [4], delimiters = [], inside_f_string = False\<rparr>,
        \<lparr>input = [CH_LF], position = 1, token_start = 0, token_end = Some 1,
         result_symbol = STRING_END\<rparr>)"
    by code_simp
  from scan_frame [OF a] scan_frame [OF b] a b show ?thesis by simp
qed

text \<open>
  Claim C3, as amended. A scan call returns true or false. When it returns true the result
  symbol is one of the seven token kinds. When it returns false the scanner state (both
  stacks and the flag) is the one the call started with. The cursor is another matter:
  the scanner advances it while it looks for a token and has no operation to move it back,
  so a call that returns false may leave it further on. Moving it back is left to the
  caller.
\<close>

theorem scan_outcomes:
  assumes "scan scanner lexer valid = (found, scanner', lexer')"
  shows "(found \<longrightarrow> result_symbol lexer' \<in>
            {NEWLINE, INDENT, DEDENT, STRING_START, STRING_CONTENT, ESCAPE_INTERPOLATION,
             STRING_END})
         \<and> (\<not> found \<longrightarrow> scanner' = scanner)"
  using assms
proof (cases rule: scan_cases)
  case eof
  then show ?thesis by simp
next
  case string
  from scan_string_frame(3) [OF string(2)] string(1) show ?thesis by auto
next
  case (newline lx)
  from scan_newline_frame(3,4) [OF newline] show ?thesis by auto
next
  case neither
  then show ?thesis by simp
qed

theorem scan_outcomes_witness:
  "scan create (lexer_at [0x78] 0) (accepting [NEWLINE, STRING_START])
     = (False, create,
        \<lparr>input = [0x78], position = 0, token_start = 0, token_end = None,
         result_symbol = NEWLINE\<rparr>)
   \<and> scan create (lexer_at [CH_LF, 0x78] 0) (accepting [NEWLINE, STRING_START])
     = (True, create,
        \<lparr>input = [0x78], position = 1, token_start = 0, token_end = Some 1,
         result_symbol = NEWLINE\<rparr>)"
proof -
  have a: "scan create (lexer_at [0x78] 0) (accepting [NEWLINE, STRING_START])
     = (False, create,
        \<lparr>input = [0x78], position = 0, token_start = 0, token_end = None,
         result_symbol = NEWLINE\<rparr>)"
    by code_simp
  have b: "scan create (lexer_at [CH_LF, 0x78] 0) (accepting [NEWLINE, STRING_START])
     = (True, create,
        \<lparr>input = [0x78], position = 1, token_start = 0, token_end = Some 1,
         result_symbol = NEWLINE\<rparr>)"
    by code_simp
  from scan_outcomes [OF a] scan_outcomes [OF b] a b show ?thesis by simp
qed

text \<open>
  The claim as stated fails: with only STRING_START acceptable, the prefix loop consumes
  the letter r of the input \<^verbatim>\<open>rx\<close>, no quote follows, and the call returns false with
  the cursor at position 1.
\<close>

theorem scan_outcomes_counterexample:
  "scan create (lexer_at [0x72, 0x78] 0) (accepting [STRING_START])
     = (False, create,
        \<lparr>input = [0x78], position = 1, token_start = 0, token_end = None,
         result_symbol = NEWLINE\<rparr>)
   \<and> position (lexer_at [0x72, 0x78] 0) = 0"
  by code_simp

text \<open>
  What a failed string scan has consumed stays consumed when the same call goes on to
  the line structure: on the input \<^verbatim>\<open>f\<close>, line feed, \<^verbatim>\<open>y\<close> with STRING_START and
  DEDENT acceptable the prefix loop takes the letter, and the DEDENT that follows spans
  the letter and the line terminator.
\<close>

lemma failed_string_scan_feeds_newline_scan:
  "scan \<lparr>indents = [4], delimiters = [], inside_f_string = False\<rparr>
        (lexer_at [0x66, CH_LF, 0x79] 0) (accepting [STRING_START, DEDENT])
     = (True, \<lparr>indents = [], delimiters = [], inside_f_string = False\<rparr>,
        \<lparr>input = [0x79], position = 2, token_start = 0, token_end = Some 2,
         result_symbol = DEDENT\<rparr>)"
  by code_simp

lemma scan_interpolation_flag:
  assumes "scan scanner lexer valid = (found, scanner', lexer')"
    and "interpolation_flag_ok scanner"
  shows "interpolation_flag_ok scanner'"
  using assms(1)
proof (cases rule: scan_cases)
  case eof
  with assms(2) show ?thesis by (simp add: interpolation_flag_ok_def)
next
  case string
  from scan_string_frame(4) [OF string(2) assms(2)] show ?thesis .
next
  case (newline lx)
  from scan_newline_frame(1,2) [OF newline] assms(2) show ?thesis
    by (simp add: interpolation_flag_ok_def)
next
  case neither
  with assms(2) show ?thesis by simp
qed

text \<open>
  Claim C9. In every state reachable from the initial state by scan calls, the
  interpolation flag is the format bit of the top of the delimiter stack, and false when
  the stack is empty. The push of STRING_START sets the flag to the format flag it has
  just packed into the delimiter, the pop of STRING_END recomputes it from the new top,
  and no other path writes the flag or the stack.
\<close>

theorem reachable_interpolation_flag:
  assumes "reachable scanner"
  shows "inside_f_string scanner
           = (delimiters scanner \<noteq> [] \<and> last (delimiters scanner) AND 0x400 \<noteq> 0)"
proof -
  from assms have "interpolation_flag_ok scanner"
  proof induction
    case initial
    show ?case by (simp add: interpolation_flag_ok_def create_def)
  next
    case (step scanner lexer valid found scanner' lexer')
    from scan_interpolation_flag [OF step.hyps(2) step.IH] show ?case .
  qed
  then show ?thesis by (simp add: interpolation_flag_ok_def)
qed

theorem reachable_interpolation_flag_witness:
  "reachable \<lparr>indents = [], delimiters = [0x427], inside_f_string = True\<rparr>
   \<and> inside_f_string \<lparr>indents = [], delimiters = [0x427], inside_f_string = True\<rparr>
       = (delimiters \<lparr>indents = [], delimiters = [0x427], inside_f_string = True\<rparr> \<noteq> []
          \<and> last (delimiters \<lparr>indents = [], delimiters = [0x427], inside_f_string = True\<rparr>)
                AND 0x400 \<noteq> 0)"
proof -
  have "scan create (lexer_at [0x66, CH_SQUOTE, 0x78] 0) (accepting [STRING_START])
     = (True, \<lparr>indents = [], delimiters = [0x427], inside_f_string = True\<rparr>,
        \<lparr>input = [0x78], position = 2, token_start = 0, token_end = Some 2,
         result_symbol = STRING_START\<rparr>)"
    by code_simp
  with reachable.initial
  have r: "reachable \<lparr>indents = [], delimiters = [0x427], inside_f_string = True\<rparr>"
    by (rule reachable.step)
  from reachable_interpolation_flag [OF r] r show ?thesis by blast
qed

section \<open>The widths on the indent stack\<close>

lemma count_indent_replicate:
  assumes "\<not> is_space (case rest of [] \<Rightarrow> 0 | c # _ \<Rightarrow> c)"
  shows "count_indent n \<lparr>input = replicate k CH_SPACE @ rest, position = p, token_start = ts,
                          token_end = te, result_symbol = rs\<rparr>
         = (n + of_nat k,
            \<lparr>input = rest, position = p + k,
             token_start = (if k = 0 then ts else p + k), token_end = te,
             result_symbol = rs\<rparr>)"
proof (induction k arbitrary: n p ts)
  case 0
  from assms show ?case
    by (subst count_indent.simps) (simp add: lookahead_def)
next
  case (Suc k)
  show ?case
    by (subst count_indent.simps)
       (simp add: lookahead_def is_space_def skip_def Suc.IH)
qed

lemma wide_line:
  "measure_indent
     (consume_newline (skip_to_newline (lexer_at (CH_LF # replicate 65536 CH_SPACE @ [0x78]) 0)))
   = (65536,
      \<lparr>input = [0x78], position = 65537, token_start = 65537, token_end = Some 1,
       result_symbol = NEWLINE\<rparr>)"
proof -
  have a: "skip_to_newline (lexer_at (CH_LF # replicate 65536 CH_SPACE @ [0x78]) 0)
           = lexer_at (CH_LF # replicate 65536 CH_SPACE @ [0x78]) 0"
    by (simp add: skip_to_newline_def Let_def skip_spaces.simps lexer_at_def lookahead_def
          is_space_def)
  have r: "replicate 65536 CH_SPACE = CH_SPACE # replicate 65535 CH_SPACE"
    by (simp add: replicate_Suc [symmetric] del: replicate_Suc)
  have b: "consume_newline (lexer_at (CH_LF # replicate 65536 CH_SPACE @ [0x78]) 0)
           = \<lparr>input = replicate 65536 CH_SPACE @ [0x78], position = 1, token_start = 0,
              token_end = Some 1, result_symbol = NEWLINE\<rparr>"
    by (simp add: consume_newline_def Let_def lexer_at_def advance_def mark_end_def
          lookahead_def r)
  have c: "count_indent 0 \<lparr>input = replicate 65536 CH_SPACE @ [0x78], position = 1,
              token_start = 0, token_end = Some 1, result_symbol = NEWLINE\<rparr>
           = (65536, \<lparr>input = [0x78], position = 65537, token_start = 65537,
                      token_end = Some 1, result_symbol = NEWLINE\<rparr>)"
    by (subst count_indent_replicate) (simp_all add: is_space_def)
  show ?thesis
    unfolding measure_indent_def a b c
    by (simp add: skip_blank_lines.simps lookahead_def is_newline_def)
qed

lemma scan_newline_decision:
  assumes "is_newline (lookahead (skip_to_newline lexer))"
    and "measure_indent (consume_newline (skip_to_newline lexer)) = (w, lx)"
  shows "scan_newline scanner lexer valid = indent_decision scanner valid w lx"
  using assms by (simp add: scan_newline_def Let_def)

text \<open>
  While the measured width is below 65536 the value pushed is the width itself, above the
  old top, so the decision keeps an increasing stack increasing.
\<close>

lemma ucast_width:
  assumes "ucast (t :: 16 word) < (w :: 32 word)" and "unat w < 65536"
  shows "t < (ucast w :: 16 word)"
proof -
  have "unat t < 2 ^ 16"
    using unsigned_less [of t, where 'a = nat] by simp
  then have "unat t < 2 ^ 32"
    by simp
  then have "unat (ucast t :: 32 word) = unat t"
    by (simp add: unsigned_ucast_eq take_bit_nat_eq_self)
  moreover have "unat (ucast w :: 16 word) = unat w"
    using assms(2) by (simp add: unsigned_ucast_eq take_bit_nat_eq_self)
  ultimately show ?thesis
    using assms(1) by (simp add: word_less_nat_alt)
qed

lemma sorted_wrt_less_last:
  "sorted_wrt (<) (xs :: 16 word list) \<Longrightarrow> x \<in> set xs \<Longrightarrow> x \<le> last xs"
  by (induction xs) (auto simp: less_imp_le)

lemma indent_decision_indents:
  "indents (fst (snd (indent_decision scanner valid w lx))) =
     (if ucast (if indents scanner \<noteq> [] then last (indents scanner) else 0) < w
          \<and> valid INDENT
      then indents scanner @ [ucast w]
      else if w < ucast (if indents scanner \<noteq> [] then last (indents scanner) else 0)
          \<and> valid DEDENT
      then butlast (indents scanner)
      else indents scanner)"
  by (auto simp: indent_decision_def Let_def)

lemma indent_decision_increasing:
  assumes s: "sorted_wrt (<) (indents scanner)"
    and w: "unat w < 65536"
  shows "sorted_wrt (<) (indents (fst (snd (indent_decision scanner valid w lx))))"
proof -
  have push: "sorted_wrt (<) (indents scanner @ [ucast w])"
    if "ucast (if indents scanner \<noteq> [] then last (indents scanner) else 0) < w"
  proof (cases "indents scanner = []")
    case True
    then show ?thesis by simp
  next
    case False
    with that have "ucast (last (indents scanner)) < w" by simp
    from ucast_width [OF this w] have "last (indents scanner) < ucast w" .
    with sorted_wrt_less_last [OF s] have "\<forall>x \<in> set (indents scanner). x < ucast w"
      by fastforce
    with s show ?thesis by (simp add: sorted_wrt_append)
  qed
  have pop: "sorted_wrt (<) (butlast (indents scanner))"
    using s by (cases "indents scanner" rule: rev_cases) (simp_all add: sorted_wrt_append)
  show ?thesis
    unfolding indent_decision_indents using push pop s by simp
qed

text \<open>
  Claim C5, at an input where the code departs from it. The line after the terminator
  starts with 65536 spaces, so the measured width is 65536, above the top 0 of the empty
  stack, and INDENT is acceptable. INDENT is emitted, but the width pushed is 0: the
  stack holds 16-bit widths and the push keeps the low 16 bits of the 32-bit counter.
  For every width the decision between INDENT, DEDENT and NEWLINE is the one the claim
  describes (\<open>scan_newline_decision\<close> and \<open>indent_decision_def\<close>); the value pushed is
  the measured width only while that is below 65536.
\<close>

theorem wide_indent_truncated:
  "fst (measure_indent (consume_newline (skip_to_newline
          (lexer_at (CH_LF # replicate 65536 CH_SPACE @ [0x78]) 0)))) = 65536
   \<and> scan_newline create (lexer_at (CH_LF # replicate 65536 CH_SPACE @ [0x78]) 0)
        (accepting [INDENT])
     = (True, \<lparr>indents = [0], delimiters = [], inside_f_string = False\<rparr>,
        \<lparr>input = [0x78], position = 65537, token_start = 65537, token_end = Some 1,
         result_symbol = INDENT\<rparr>)"
proof -
  have "scan_newline create (lexer_at (CH_LF # replicate 65536 CH_SPACE @ [0x78]) 0)
        (accepting [INDENT])
     = (True, \<lparr>indents = [0], delimiters = [], inside_f_string = False\<rparr>,
        \<lparr>input = [0x78], position = 65537, token_start = 65537, token_end = Some 1,
         result_symbol = INDENT\<rparr>)"
    by (subst scan_newline_decision [OF _ wide_line])
       (simp_all add: skip_to_newline_def Let_def skip_spaces.simps lexer_at_def lookahead_def
          is_space_def is_newline_def indent_decision_def create_def accepting_def)
  then show ?thesis by (simp add: wide_line)
qed

text \<open>
  Claim C8, at an input where the code departs from it. From the initial state a line
  indented by 4 gives the stack [4]; a following line indented by 65536 is an INDENT,
  since 65536 is above 4, and pushes 0. The stack [4, 0] is reachable and is not
  increasing. Widths below 65536 do keep the stack increasing
  (\<open>indent_decision_increasing\<close>).
\<close>

theorem indent_stack_not_increasing:
  "reachable \<lparr>indents = [4, 0], delimiters = [], inside_f_string = False\<rparr>
   \<and> \<not> sorted_wrt (<) (indents \<lparr>indents = [4, 0], delimiters = [], inside_f_string = False\<rparr>)"
proof -
  have "scan create (lexer_at [CH_LF, CH_SPACE, CH_SPACE, CH_SPACE, CH_SPACE, 0x78] 0)
          (accepting [INDENT])
        = (True, \<lparr>indents = [4], delimiters = [], inside_f_string = False\<rparr>,
           \<lparr>input = [0x78], position = 5, token_start = 5, token_end = Some 1,
            result_symbol = INDENT\<rparr>)"
    by code_simp
  with reachable.initial
  have r1: "reachable \<lparr>indents = [4], delimiters = [], inside_f_string = False\<rparr>"
    by (rule reachable.step)
  have "scan_newline \<lparr>indents = [4], delimiters = [], inside_f_string = False\<rparr>
          (lexer_at (CH_LF # replicate 65536 CH_SPACE @ [0x78]) 0) (accepting [INDENT])
        = (True, \<lparr>indents = [4, 0], delimiters = [], inside_f_string = False\<rparr>,
           \<lparr>input = [0x78], position = 65537, token_start = 65537, token_end = Some 1,
            result_symbol = INDENT\<rparr>)"
    by (subst scan_newline_decision [OF _ wide_line])
       (simp_all add: skip_to_newline_def Let_def skip_spaces.simps lexer_at_def lookahead_def
          is_space_def is_newline_def indent_decision_def accepting_def)
  then have "scan \<lparr>indents = [4], delimiters = [], inside_f_string = False\<rparr>
          (lexer_at (CH_LF # replicate 65536 CH_SPACE @ [0x78]) 0) (accepting [INDENT])
        = (True, \<lparr>indents = [4, 0], delimiters = [], inside_f_string = False\<rparr>,
           \<lparr>input = [0x78], position = 65537, token_start = 65537, token_end = Some 1,
            result_symbol = INDENT\<rparr>)"
    by (simp add: scan_def accepting_def)
  with r1 have "reachable \<lparr>indents = [4, 0], delimiters = [], inside_f_string = False\<rparr>"
    by (rule reachable.step)
  then show ?thesis by simp
qed

section \<open>The content of a string\<close>

lemma scan_prefix_none:
  assumes "lookahead lx \<notin> {0x72, 0x52, 0x66, 0x46, 0x62, 0x42, 0x75, 0x55}"
  shows "scan_prefix r f b lx = (r, f, b, lx)"
  using assms by (subst scan_prefix.simps) (simp add: Let_def)

lemma string_content_round_brace:
  assumes "lookahead lx = CH_LBRACE" and "q \<noteq> CH_LBRACE"
  shows "string_content_round q t r True h lx =
           (if h then Exit (Return True ((mark_end lx)\<lparr>result_symbol := STRING_CONTENT\<rparr>))
            else if lookahead (advance lx) = CH_LBRACE
            then Exit (Return True
                   ((mark_end (advance (advance lx)))\<lparr>result_symbol := ESCAPE_INTERPOLATION\<rparr>))
            else Exit (Return False (advance lx)))"
  using assms by (simp add: string_content_round_def Let_def is_newline_def)

lemma string_content_loop_brace:
  assumes "lookahead lx = CH_LBRACE" and "q \<noteq> CH_LBRACE"
  shows "string_content_loop q t r True h lx =
           (if h then Return True ((mark_end lx)\<lparr>result_symbol := STRING_CONTENT\<rparr>)
            else if lookahead (advance lx) = CH_LBRACE
            then Return True
                   ((mark_end (advance (advance lx)))\<lparr>result_symbol := ESCAPE_INTERPOLATION\<rparr>)
            else Return False (advance lx))"
  by (subst string_content_loop.simps) (simp add: string_content_round_brace [OF assms])

lemma scan_string_at_brace:
  assumes "lookahead lexer = CH_LBRACE"
  shows "scan_string scanner lexer valid = scan_string_content scanner lexer valid"
  using assms by (simp add: scan_string_def scan_prefix_none)

lemma brace_in_format_string:
  assumes "delimiters scanner \<noteq> []"
    and "last (delimiters scanner) AND 0x400 \<noteq> 0"
    and "last (delimiters scanner) AND 0xFF \<noteq> CH_LBRACE"
    and "valid STRING_CONTENT"
    and "lookahead lexer = CH_LBRACE"
  shows "string_content_loop (last (delimiters scanner) AND 0xFF)
           (last (delimiters scanner) AND 0x100 \<noteq> 0) (last (delimiters scanner) AND 0x200 \<noteq> 0)
           (last (delimiters scanner) AND 0x400 \<noteq> 0) True lexer
         = Return True (lexer\<lparr>token_end := Some (position lexer),
                               result_symbol := STRING_CONTENT\<rparr>)
     \<and> (lookahead (advance lexer) = CH_LBRACE \<longrightarrow>
          scan_string scanner lexer valid
          = (True, scanner,
             lexer\<lparr>input := drop 2 (input lexer), position := position lexer + 2,
                   token_end := Some (position lexer + 2),
                   result_symbol := ESCAPE_INTERPOLATION\<rparr>))
     \<and> (lookahead (advance lexer) \<noteq> CH_LBRACE \<longrightarrow>
          scan_string scanner lexer valid
          = (False, scanner,
             lexer\<lparr>input := drop 1 (input lexer), position := position lexer + 1\<rparr>))"
proof -
  define d where "d = last (delimiters scanner)"
  obtain c cs where i: "input lexer = c # cs"
    using assms(5) by (cases "input lexer") (simp_all add: lookahead_def)
  have a1: "advance lexer = lexer\<lparr>input := drop 1 (input lexer), position := position lexer + 1\<rparr>"
    using i by (simp add: advance_def)
  have a2: "mark_end (advance (advance lexer))
            = lexer\<lparr>input := drop 2 (input lexer), position := position lexer + 2,
                   token_end := Some (position lexer + 2)\<rparr>"
    if "lookahead (advance lexer) = CH_LBRACE"
  proof -
    from that i obtain c' cs' where "cs = c' # cs'"
      by (cases cs) (simp_all add: lookahead_def advance_def)
    with i show ?thesis by (simp add: advance_def mark_end_def)
  qed
  have loop: "string_content_loop (d AND 0xFF) (d AND 0x100 \<noteq> 0) (d AND 0x200 \<noteq> 0)
                (d AND 0x400 \<noteq> 0) h lexer
              = (if h then Return True ((mark_end lexer)\<lparr>result_symbol := STRING_CONTENT\<rparr>)
                 else if lookahead (advance lexer) = CH_LBRACE
                 then Return True ((mark_end (advance (advance lexer)))
                                     \<lparr>result_symbol := ESCAPE_INTERPOLATION\<rparr>)
                 else Return False (advance lexer))" for h
    using assms(2,3,5) string_content_loop_brace [of lexer "d AND 0xFF" "d AND 0x100 \<noteq> 0"
        "d AND 0x200 \<noteq> 0" h]
    by (simp add: d_def)
  have s: "scan_string scanner lexer valid
           = (case string_content_loop (d AND 0xFF) (d AND 0x100 \<noteq> 0) (d AND 0x200 \<noteq> 0)
                     (d AND 0x400 \<noteq> 0) False lexer of
                Return ok lx' \<Rightarrow> (ok, scanner, lx')
              | Break has_content lx' \<Rightarrow>
                  if has_content
                  then (True, scanner, (mark_end lx')\<lparr>result_symbol := STRING_CONTENT\<rparr>)
                  else scan_string_end scanner lx' valid)"
    using assms(1,4,5)
    by (simp add: scan_string_at_brace scan_string_content_def Let_def d_def)
  have c1: "string_content_loop (d AND 0xFF) (d AND 0x100 \<noteq> 0) (d AND 0x200 \<noteq> 0)
                (d AND 0x400 \<noteq> 0) True lexer
            = Return True (lexer\<lparr>token_end := Some (position lexer),
                                  result_symbol := STRING_CONTENT\<rparr>)"
    by (simp add: loop mark_end_def)
  have c2: "scan_string scanner lexer valid
          = (True, scanner,
             lexer\<lparr>input := drop 2 (input lexer), position := position lexer + 2,
                   token_end := Some (position lexer + 2),
                   result_symbol := ESCAPE_INTERPOLATION\<rparr>)"
    if "lookahead (advance lexer) = CH_LBRACE"
    using that by (simp add: s loop a2)
  have c3: "scan_string scanner lexer valid
          = (False, scanner,
             lexer\<lparr>input := drop 1 (input lexer), position := position lexer + 1\<rparr>)"
    if "lookahead (advance lexer) \<noteq> CH_LBRACE"
    using that by (simp add: s loop) (simp add: a1)
  from c1 c2 c3 show ?thesis
    unfolding d_def by blast
qed

lemma scan_string_no_start:
  assumes "lookahead lexer \<notin> {0x72, 0x52, 0x66, 0x46, 0x62, 0x42, 0x75, 0x55}"
    and "lookahead lexer \<noteq> CH_DQUOTE" and "lookahead lexer \<noteq> CH_SQUOTE"
  shows "scan_string scanner lexer valid = scan_string_content scanner lexer valid"
  using assms by (simp add: scan_string_def scan_prefix_none)

lemma scan_string_found:
  assumes "scan_string scanner lexer valid = (True, scanner', lexer')"
    and "\<not> eof lexer"
    and "valid STRING_START \<or> valid STRING_CONTENT"
  shows "scan scanner lexer valid = (True, scanner', lexer')"
  using assms by (auto simp: scan_def)

lemma scenario_loops:
  "string_content_loop CH_SQUOTE True False True False (lexer_at fstring_text 4)
     = Return True \<lparr>input = drop 7 fstring_text, position = 7, token_start = 4,
                     token_end = Some 7, result_symbol = STRING_CONTENT\<rparr>"
  "string_content_loop CH_SQUOTE True False True False (lexer_at fstring_text 7)
     = Return True \<lparr>input = drop 9 fstring_text, position = 9, token_start = 7,
                     token_end = Some 9, result_symbol = ESCAPE_INTERPOLATION\<rparr>"
  "string_content_loop CH_SQUOTE True False True False (lexer_at fstring_text 9)
     = Return True \<lparr>input = drop 14 fstring_text, position = 14, token_start = 9,
                     token_end = Some 12, result_symbol = STRING_CONTENT\<rparr>"
  by code_simp+

lemma scenario_start:
  assumes "valid STRING_START"
  shows "scan create (lexer_at fstring_text 0) valid
         = (True, \<lparr>indents = [], delimiters = [0x527], inside_f_string = True\<rparr>,
            \<lparr>input = drop 4 fstring_text, position = 4, token_start = 0, token_end = Some 4,
             result_symbol = STRING_START\<rparr>)"
proof -
  have p: "scan_prefix False False False (lexer_at fstring_text 0)
           = (False, True, False,
              \<lparr>input = drop 1 fstring_text, position = 1, token_start = 0, token_end = None,
               result_symbol = NEWLINE\<rparr>)"
    by code_simp
  have "scan_string create (lexer_at fstring_text 0) valid
         = (True, \<lparr>indents = [], delimiters = [0x527], inside_f_string = True\<rparr>,
            \<lparr>input = drop 4 fstring_text, position = 4, token_start = 0, token_end = Some 4,
             result_symbol = STRING_START\<rparr>)"
    using assms
    by (simp add: scan_string_def p)
       (simp add: fstring_text_def lookahead_def advance_def mark_end_def Let_def
          string_start_found_def create_def)
  from scan_string_found [OF this] assms show ?thesis
    by (simp add: eof_def lexer_at_def fstring_text_def)
qed

lemma scenario_content:
  assumes "valid STRING_CONTENT" and "p = 4 \<or> p = 7 \<or> p = 9"
    and "string_content_loop CH_SQUOTE True False True False (lexer_at fstring_text p)
           = Return True lx"
  shows "scan \<lparr>indents = [], delimiters = [0x527], inside_f_string = True\<rparr>
           (lexer_at fstring_text p) valid
         = (True, \<lparr>indents = [], delimiters = [0x527], inside_f_string = True\<rparr>, lx)"
proof -
  have la: "lookahead (lexer_at fstring_text p) \<notin> {0x72, 0x52, 0x66, 0x46, 0x62, 0x42, 0x75, 0x55}"
    "lookahead (lexer_at fstring_text p) \<noteq> CH_DQUOTE"
    "lookahead (lexer_at fstring_text p) \<noteq> CH_SQUOTE"
    and ne: "\<not> eof (lexer_at fstring_text p)"
    using assms(2) by (auto simp: lexer_at_def fstring_text_def lookahead_def eof_def)
  have "scan_string \<lparr>indents = [], delimiters = [0x527], inside_f_string = True\<rparr>
           (lexer_at fstring_text p) valid
         = (True, \<lparr>indents = [], delimiters = [0x527], inside_f_string = True\<rparr>, lx)"
    using assms(1,3)
    by (simp add: scan_string_no_start [OF la] scan_string_content_def Let_def)
  from scan_string_found [OF this ne] assms(1) show ?thesis
    by simp
qed

text \<open>
  Claim C6, as amended. The cursor stands at a \<^verbatim>\<open>{\<close> inside a format string, that is,
  one whose delimiter on top of the stack has the format bit; STRING_CONTENT is
  acceptable. If the content loop has accumulated content, it marks the end of the token
  before the brace and returns STRING_CONTENT. If the string scan starts at the brace, so
  that nothing is accumulated, and the next code point is a brace as well, it consumes
  exactly the two braces and emits ESCAPE_INTERPOLATION. Otherwise the string scan
  returns false at once, without trying STRING_END, and the scanner state is unchanged;
  the cursor has by then been advanced past the brace, and it stays there. On the text
  \<open>fstring_text\<close>, each call starting where the token of the call before ended, the
  first four calls yield STRING_START (positions 0 to 4, the prefix letter and the three
  quotes), STRING_CONTENT (4 to 7), ESCAPE_INTERPOLATION (7 to 9) and STRING_CONTENT
  (9 to 12), for every set of acceptable kinds that holds STRING_START at the first call
  and STRING_CONTENT at the others. The closing call is not part of the statement.
\<close>

theorem format_brace:
  "(delimiters scanner \<noteq> []
      \<and> last (delimiters scanner) AND 0x400 \<noteq> 0
      \<and> last (delimiters scanner) AND 0xFF \<noteq> CH_LBRACE
      \<and> valid STRING_CONTENT
      \<and> lookahead lexer = CH_LBRACE \<longrightarrow>
    string_content_loop (last (delimiters scanner) AND 0xFF)
        (last (delimiters scanner) AND 0x100 \<noteq> 0) (last (delimiters scanner) AND 0x200 \<noteq> 0)
        (last (delimiters scanner) AND 0x400 \<noteq> 0) True lexer
      = Return True (lexer\<lparr>token_end := Some (position lexer),
                            result_symbol := STRING_CONTENT\<rparr>)
    \<and> (lookahead (advance lexer) = CH_LBRACE \<longrightarrow>
         scan_string scanner lexer valid
         = (True, scanner,
            lexer\<lparr>input := drop 2 (input lexer), position := position lexer + 2,
                  token_end := Some (position lexer + 2),
                  result_symbol := ESCAPE_INTERPOLATION\<rparr>))
    \<and> (lookahead (advance lexer) \<noteq> CH_LBRACE \<longrightarrow>
         scan_string scanner lexer valid
         = (False, scanner,
            lexer\<lparr>input := drop 1 (input lexer), position := position lexer + 1\<rparr>)))
   \<and> (valid1 STRING_START \<longrightarrow>
        scan create (lexer_at fstring_text 0) valid1
        = (True, \<lparr>indents = [], delimiters = [0x527], inside_f_string = True\<rparr>,
           \<lparr>input = drop 4 fstring_text, position = 4, token_start = 0, token_end = Some 4,
            result_symbol = STRING_START\<rparr>))
   \<and> (valid2 STRING_CONTENT \<longrightarrow>
        scan \<lparr>indents = [], delimiters = [0x527], inside_f_string = True\<rparr>
          (lexer_at fstring_text 4) valid2
        = (True, \<lparr>indents = [], delimiters = [0x527], inside_f_string = True\<rparr>,
           \<lparr>input = drop 7 fstring_text, position = 7, token_start = 4, token_end = Some 7,
            result_symbol = STRING_CONTENT\<rparr>)
        \<and> scan \<lparr>indents = [], delimiters = [0x527], inside_f_string = True\<rparr>
          (lexer_at fstring_text 7) valid2
        = (True, \<lparr>indents = [], delimiters = [0x527], inside_f_string = True\<rparr>,
           \<lparr>input = drop 9 fstring_text, position = 9, token_start = 7, token_end = Some 9,
            result_symbol = ESCAPE_INTERPOLATION\<rparr>)
        \<and> scan \<lparr>indents = [], delimiters = [0x527], inside_f_string = True\<rparr>
          (lexer_at fstring_text 9) valid2
        = (True, \<lparr>indents = [], delimiters = [0x527], inside_f_string = True\<rparr>,
           \<lparr>input = drop 14 fstring_text, position = 14, token_start = 9, token_end = Some 12,
            result_symbol = STRING_CONTENT\<rparr>))"
proof (intro conjI impI)
  assume h: "delimiters scanner \<noteq> []
      \<and> last (delimiters scanner) AND 0x400 \<noteq> 0
      \<and> last (delimiters scanner) AND 0xFF \<noteq> CH_LBRACE
      \<and> valid STRING_CONTENT
      \<and> lookahead lexer = CH_LBRACE"
  then have *: "delimiters scanner \<noteq> []" "last (delimiters scanner) AND 0x400 \<noteq> 0"
    "last (delimiters scanner) AND 0xFF \<noteq> CH_LBRACE" "valid STRING_CONTENT"
    "lookahead lexer = CH_LBRACE"
    by simp_all
  note b = brace_in_format_string [of scanner valid lexer, OF *]
  from b show "string_content_loop (last (delimiters scanner) AND 0xFF)
        (last (delimiters scanner) AND 0x100 \<noteq> 0) (last (delimiters scanner) AND 0x200 \<noteq> 0)
        (last (delimiters scanner) AND 0x400 \<noteq> 0) True lexer
      = Return True (lexer\<lparr>token_end := Some (position lexer),
                            result_symbol := STRING_CONTENT\<rparr>)"
    by (rule conjunct1)
  show "scan_string scanner lexer valid
         = (True, scanner,
            lexer\<lparr>input := drop 2 (input lexer), position := position lexer + 2,
                  token_end := Some (position lexer + 2),
                  result_symbol := ESCAPE_INTERPOLATION\<rparr>)"
    if "lookahead (advance lexer) = CH_LBRACE"
    using b that by blast
  show "scan_string scanner lexer valid
         = (False, scanner,
            lexer\<lparr>input := drop 1 (input lexer), position := position lexer + 1\<rparr>)"
    if "lookahead (advance lexer) \<noteq> CH_LBRACE"
    using b that by blast
next
  assume "valid1 STRING_START"
  then show "scan create (lexer_at fstring_text 0) valid1
        = (True, \<lparr>indents = [], delimiters = [0x527], inside_f_string = True\<rparr>,
           \<lparr>input = drop 4 fstring_text, position = 4, token_start = 0, token_end = Some 4,
            result_symbol = STRING_START\<rparr>)"
    by (rule scenario_start)
next
  assume v: "valid2 STRING_CONTENT"
  show "scan \<lparr>indents = [], delimiters = [0x527], inside_f_string = True\<rparr>
          (lexer_at fstring_text 4) valid2
        = (True, \<lparr>indents = [], delimiters = [0x527], inside_f_string = True\<rparr>,
           \<lparr>input = drop 7 fstring_text, position = 7, token_start = 4, token_end = Some 7,
            result_symbol = STRING_CONTENT\<rparr>)"
    using v scenario_loops(1) by (intro scenario_content [where p = 4]) simp_all
  show "scan \<lparr>indents = [], delimiters = [0x527], inside_f_string = True\<rparr>
          (lexer_at fstring_text 7) valid2
        = (True, \<lparr>indents = [], delimiters = [0x527], inside_f_string = True\<rparr>,
           \<lparr>input = drop 9 fstring_text, position = 9, token_start = 7, token_end = Some 9,
            result_symbol = ESCAPE_INTERPOLATION\<rparr>)"
    using v scenario_loops(2) by (intro scenario_content [where p = 7]) simp_all
  show "scan \<lparr>indents = [], delimiters = [0x527], inside_f_string = True\<rparr>
          (lexer_at fstring_text 9) valid2
        = (True, \<lparr>indents = [], delimiters = [0x527], inside_f_string = True\<rparr>,
           \<lparr>input = drop 14 fstring_text, position = 14, token_start = 9, token_end = Some 12,
            result_symbol = STRING_CONTENT\<rparr>)"
    using v scenario_loops(3) by (intro scenario_content [where p = 9]) simp_all
qed

theorem format_brace_witness:
  "delimiters \<lparr>indents = [], delimiters = [0x527], inside_f_string = True\<rparr> \<noteq> []
   \<and> last (delimiters \<lparr>indents = [], delimiters = [0x527], inside_f_string = True\<rparr>)
         AND 0x400 \<noteq> 0
   \<and> last (delimiters \<lparr>indents = [], delimiters = [0x527], inside_f_string = True\<rparr>)
         AND 0xFF \<noteq> CH_LBRACE
   \<and> accepting [STRING_CONTENT] STRING_CONTENT
   \<and> accepting [STRING_START] STRING_START
   \<and> lookahead (lexer_at fstring_text 7) = CH_LBRACE
   \<and> lookahead (advance (lexer_at fstring_text 7)) = CH_LBRACE
   \<and> lookahead (lexer_at [CH_LBRACE, 0x78] 0) = CH_LBRACE
   \<and> lookahead (advance (lexer_at [CH_LBRACE, 0x78] 0)) \<noteq> CH_LBRACE
   \<and> string_content_loop CH_SQUOTE True False True True (lexer_at fstring_text 7)
       = Return True
           \<lparr>input = drop 7 fstring_text, position = 7, token_start = 7, token_end = Some 7,
            result_symbol = STRING_CONTENT\<rparr>
   \<and> scan_string \<lparr>indents = [], delimiters = [0x527], inside_f_string = True\<rparr>
         (lexer_at fstring_text 7) (accepting [STRING_CONTENT])
       = (True, \<lparr>indents = [], delimiters = [0x527], inside_f_string = True\<rparr>,
          \<lparr>input = drop 9 fstring_text, position = 9, token_start = 7, token_end = Some 9,
           result_symbol = ESCAPE_INTERPOLATION\<rparr>)
   \<and> scan_string \<lparr>indents = [], delimiters = [0x527], inside_f_string = True\<rparr>
         (lexer_at [CH_LBRACE, 0x78] 0) (accepting [STRING_CONTENT])
       = (False, \<lparr>indents = [], delimiters = [0x527], inside_f_string = True\<rparr>,
          \<lparr>input = [0x78], position = 1, token_start = 0, token_end = None,
           result_symbol = NEWLINE\<rparr>)
   \<and> scan create (lexer_at fstring_text 0) (accepting [STRING_START])
       = (True, \<lparr>indents = [], delimiters = [0x527], inside_f_string = True\<rparr>,
          \<lparr>input = drop 4 fstring_text, position = 4, token_start = 0, token_end = Some 4,
           result_symbol = STRING_START\<rparr>)
   \<and> scan \<lparr>indents = [], delimiters = [0x527], inside_f_string = True\<rparr>
         (lexer_at fstring_text 4) (accepting [STRING_CONTENT])
       = (True, \<lparr>indents = [], delimiters = [0x527], inside_f_string = True\<rparr>,
          \<lparr>input = drop 7 fstring_text, position = 7, token_start = 4, token_end = Some 7,
           result_symbol = STRING_CONTENT\<rparr>)
   \<and> scan \<lparr>indents = [], delimiters = [0x527], inside_f_string = True\<rparr>
         (lexer_at fstring_text 7) (accepting [STRING_CONTENT])
       = (True, \<lparr>indents = [], delimiters = [0x527], inside_f_string = True\<rparr>,
          \<lparr>input = drop 9 fstring_text, position = 9, token_start = 7, token_end = Some 9,
           result_symbol = ESCAPE_INTERPOLATION\<rparr>)
   \<and> scan \<lparr>indents = [], delimiters = [0x527], inside_f_string = True\<rparr>
         (lexer_at fstring_text 9) (accepting [STRING_CONTENT])
       = (True, \<lparr>indents = [], delimiters = [0x527], inside_f_string = True\<rparr>,
          \<lparr>input = drop 14 fstring_text, position = 14, token_start = 9, token_end = Some 12,
           result_symbol = STRING_CONTENT\<rparr>)"
  using format_brace [where scanner = "\<lparr>indents = [], delimiters = [0x527], inside_f_string = True\<rparr>"
          and valid = "accepting [STRING_CONTENT]" and lexer = "lexer_at fstring_text 7"
          and ?valid1.0 = "accepting [STRING_START]" and ?valid2.0 = "accepting [STRING_CONTENT]"]
        format_brace [where scanner = "\<lparr>indents = [], delimiters = [0x527], inside_f_string = True\<rparr>"
          and valid = "accepting [STRING_CONTENT]" and lexer = "lexer_at [CH_LBRACE, 0x78] 0"
          and ?valid1.0 = "accepting [STRING_START]" and ?valid2.0 = "accepting [STRING_CONTENT]"]
  by (simp add: accepting_def lexer_at_def fstring_text_def lookahead_def advance_def)

text \<open>
  The claim as stated fails in its last case: the failing string scan has consumed the
  brace.
\<close>

theorem format_brace_counterexample:
  "scan_string \<lparr>indents = [], delimiters = [0x427], inside_f_string = True\<rparr>
     (lexer_at [CH_LBRACE, 0x78, CH_SQUOTE] 0) (accepting [STRING_CONTENT, STRING_END])
   = (False, \<lparr>indents = [], delimiters = [0x427], inside_f_string = True\<rparr>,
      \<lparr>input = [0x78, CH_SQUOTE], position = 1, token_start = 0, token_end = None,
       result_symbol = NEWLINE\<rparr>)
   \<and> position (lexer_at [CH_LBRACE, 0x78, CH_SQUOTE] 0) = 0"
  by code_simp

text \<open>
  The closing call of the scenario, at position 12 of \<open>fstring_text\<close>. With STRING_END
  acceptable and neither STRING_START nor STRING_CONTENT, it closes the string.
\<close>

lemma triple_quote_close_end_only:
  "scan \<lparr>indents = [], delimiters = [0x527], inside_f_string = True\<rparr>
        (lexer_at fstring_text 12) (accepting [STRING_END])
     = (True, \<lparr>indents = [], delimiters = [], inside_f_string = False\<rparr>,
        \<lparr>input = [], position = 15, token_start = 12, token_end = Some 15,
         result_symbol = STRING_END\<rparr>)"
  by code_simp

text \<open>
  With the acceptable kinds of the calls before it, STRING_CONTENT among them, the
  closing call returns false: the content loop consumes two of the three closing quotes
  before it breaks with nothing accumulated (lines 296 to 310), and the test for the
  closing sequence that follows (lines 371 to 383) starts at the third. This holds for
  every triple-quoted delimiter whose closing sequence stands at the cursor, the empty
  triple-quoted string included; a string with one quote is closed on the same path.
\<close>

lemma triple_quote_close_after_content_scan:
  "scan \<lparr>indents = [], delimiters = [0x527], inside_f_string = True\<rparr>
        (lexer_at fstring_text 12) (accepting [STRING_CONTENT, ESCAPE_INTERPOLATION, STRING_END])
     = (False, \<lparr>indents = [], delimiters = [0x527], inside_f_string = True\<rparr>,
        \<lparr>input = [], position = 15, token_start = 12, token_end = Some 12,
         result_symbol = NEWLINE\<rparr>)"
  by code_simp

lemma triple_quote_close_fails:
  assumes "delimiters scanner \<noteq> []"
    and "last (delimiters scanner) AND 0x100 \<noteq> 0"
    and "q = last (delimiters scanner) AND 0xFF" and "q \<noteq> 0"
    and "input lexer = q # q # q # rest"
    and "(case rest of [] \<Rightarrow> 0 | c # _ \<Rightarrow> c) \<noteq> q"
    and "valid STRING_CONTENT" and "\<not> valid STRING_START"
  shows "fst (scan_string scanner lexer valid) = False"
proof -
  define lx2 where "lx2 = lexer\<lparr>token_end := Some (position lexer), input := q # rest,
                                position := Suc (Suc (position lexer))\<rparr>"
  have r: "string_content_round q True r f False lexer = Exit (Break False lx2)" for r f
    using assms(4,5)
    by (simp add: string_content_round_def Let_def lookahead_def advance_def mark_end_def
          lx2_def)
  have l: "string_content_loop q True r f False lexer = Break False lx2" for r f
    by (subst string_content_loop.simps) (simp add: r)
  have e: "fst (scan_string_end scanner lx2 valid) = False"
    using assms(1,2,3,6)
    by (simp add: scan_string_end_def Let_def lookahead_def advance_def lx2_def
          split: list.splits)
  show ?thesis
    using assms(1,2,7,8) e
    by (simp add: scan_string_def scan_string_content_def Let_def l flip: assms(3))
qed

lemma single_quote_close_after_content_scan:
  "scan \<lparr>indents = [], delimiters = [0x427], inside_f_string = True\<rparr>
        (lexer_at [CH_SQUOTE] 0) (accepting [STRING_CONTENT, ESCAPE_INTERPOLATION, STRING_END])
     = (True, \<lparr>indents = [], delimiters = [], inside_f_string = False\<rparr>,
        \<lparr>input = [], position = 1, token_start = 0, token_end = Some 1,
         result_symbol = STRING_END\<rparr>)"
  by code_simp

text \<open>
  Claim C7, as amended. In a string that is not raw, a backslash followed by a code point
  X other than 0 is consumed together with X, exactly two code points, both counted as
  content: the round of the content loop goes on to the next round after X with
  \<^verbatim>\<open>has_content\<close> set, whatever X is, the quote character and \<^verbatim>\<open>{\<close> included, so X
  neither ends the string nor starts an interpolation. The quote character of a
  delimiter is never the backslash.
\<close>

theorem escape_two_chars:
  assumes "\<not> is_raw"
    and "quote_char \<noteq> CH_BACKSLASH"
    and "input lx = CH_BACKSLASH # x # rest"
    and "x \<noteq> 0"
  shows "string_content_round quote_char is_triple is_raw is_format has_content lx
           = Continue (lx\<lparr>input := rest, position := position lx + 2\<rparr>)
         \<and> string_content_loop quote_char is_triple is_raw is_format has_content lx
           = string_content_loop quote_char is_triple is_raw is_format True
               (lx\<lparr>input := rest, position := position lx + 2\<rparr>)"
proof -
  have r: "string_content_round quote_char is_triple is_raw is_format has_content lx
           = Continue (lx\<lparr>input := rest, position := position lx + 2\<rparr>)"
    using assms
    by (simp add: string_content_round_def Let_def lookahead_def advance_def is_newline_def)
  then show ?thesis
    by (subst string_content_loop.simps) simp
qed

theorem escape_two_chars_witness:
  "\<not> False \<and> CH_SQUOTE \<noteq> CH_BACKSLASH
   \<and> input (lexer_at [CH_BACKSLASH, CH_SQUOTE, 0x61, CH_SQUOTE] 0)
       = CH_BACKSLASH # CH_SQUOTE # [0x61, CH_SQUOTE]
   \<and> CH_SQUOTE \<noteq> (0 :: 32 word)
   \<and> string_content_round CH_SQUOTE False False True False
        (lexer_at [CH_BACKSLASH, CH_SQUOTE, 0x61, CH_SQUOTE] 0)
       = Continue \<lparr>input = [0x61, CH_SQUOTE], position = 2, token_start = 0,
                   token_end = None, result_symbol = NEWLINE\<rparr>
   \<and> string_content_loop CH_SQUOTE False False True False
        (lexer_at [CH_BACKSLASH, CH_SQUOTE, 0x61, CH_SQUOTE] 0)
       = Break True \<lparr>input = [CH_SQUOTE], position = 3, token_start = 0,
                     token_end = None, result_symbol = NEWLINE\<rparr>"
proof -
  have "string_content_loop CH_SQUOTE False False True True
          ((lexer_at [CH_BACKSLASH, CH_SQUOTE, 0x61, CH_SQUOTE] 0)
             \<lparr>input := [0x61, CH_SQUOTE],
              position := position (lexer_at [CH_BACKSLASH, CH_SQUOTE, 0x61, CH_SQUOTE] 0) + 2\<rparr>)
        = Break True \<lparr>input = [CH_SQUOTE], position = 3, token_start = 0,
                      token_end = None, result_symbol = NEWLINE\<rparr>"
    by code_simp
  with escape_two_chars [of False CH_SQUOTE
          "lexer_at [CH_BACKSLASH, CH_SQUOTE, 0x61, CH_SQUOTE] 0" CH_SQUOTE "[0x61, CH_SQUOTE]"
          False True False]
  show ?thesis by (simp add: lexer_at_def)
qed

text \<open>
  The claim as stated fails for raw strings, where the source does not look for escape
  sequences: in the raw string with delimiter \<^verbatim>\<open>0x227\<close> the backslash is one code
  point of content, and the quote after it ends the content and closes the string.
\<close>

theorem escape_two_chars_counterexample:
  "scan_string \<lparr>indents = [], delimiters = [0x227], inside_f_string = False\<rparr>
     (lexer_at [CH_BACKSLASH, CH_SQUOTE] 0) (accepting [STRING_CONTENT, STRING_END])
   = (True, \<lparr>indents = [], delimiters = [0x227], inside_f_string = False\<rparr>,
      \<lparr>input = [CH_SQUOTE], position = 1, token_start = 0, token_end = Some 1,
       result_symbol = STRING_CONTENT\<rparr>)
   \<and> scan_string \<lparr>indents = [], delimiters = [0x227], inside_f_string = False\<rparr>
     (lexer_at [CH_BACKSLASH, CH_SQUOTE] 1) (accepting [STRING_CONTENT, STRING_END])
   = (True, \<lparr>indents = [], delimiters = [], inside_f_string = False\<rparr>,
      \<lparr>input = [], position = 2, token_start = 1, token_end = Some 2,
       result_symbol = STRING_END\<rparr>)"
  by code_simp

end
